theory Spec2Isabelle
  imports Main "HOL-Library.Char_ord" "HOL-Library.List_Lexorder" "HOL-Library.Sublist"
begin

section \<open>Python values, errors and keyword arguments\<close>

text \<open>
  Every exception the modelled code can raise is a value of \<open>error\<close>; a call that may raise
  returns \<open>error + 'a\<close> with \<open>Inl\<close> for the exception. \<open>CacheError\<close> stands for any
  exception of the cache store, \<open>BackendError\<close> for any exception of a retriever or of the
  language model.
\<close>

datatype error =
  TypeError | AssertionError | IndexError | KeyError | ValueError | CacheError | BackendError

text \<open>
  The values that travel in \<open>**search_kwargs\<close> and in a cache key: \<open>None\<close>, booleans,
  integers, strings and the retriever's configuration object \<open>self.cfg\<close> (kept abstract).
\<close>

datatype 'c pyval = PNone | PBool bool | PInt int | PStr string | PCfg 'c

text \<open>Python's truth value, as \<open>if disable_cache:\<close> takes it.\<close>

fun truthy :: "'c pyval \<Rightarrow> bool" where
  "truthy PNone = False"
| "truthy (PBool b) = b"
| "truthy (PInt i) = (i \<noteq> 0)"
| "truthy (PStr s) = (s \<noteq> [])"
| "truthy (PCfg c) = True"

text \<open>
  A keyword dictionary in insertion order (its names are distinct, as in a Python dict).
  The \<open>query\<close> argument of \<open>search\<close> is either one string or a list of strings.
\<close>

type_synonym 'c kwargs = "(string \<times> 'c pyval) list"

datatype query_arg = QStr string | QList "string list"

section \<open>The cache store\<close>

text \<open>
  \<open>hashkey(*args, **kwargs)\<close> returns \<open>tuple(args), tuple(sorted(kwargs.items()))\<close>. It is
  only called with keyword arguments, so the key is the item list sorted by name.
\<close>

type_synonym 'c key = "(string \<times> 'c pyval) list"

definition hashkey :: "'c kwargs \<Rightarrow> 'c key" where
  "hashkey kw = sort_key fst kw"

text \<open>
  Modelled from the spec: the store \<open>RETRIEVAL_CACHE\<close> is a \<open>PersistentCache\<close> of
  \<open>librarian.cache\<close>, which is not among the sources. The spec gives it the contract
  \<open>get(key) -> value | absent\<close> and \<open>put(key, value)\<close>, and names the case that the store
  cannot be reached. The model is a mapping from keys to stored values with two flags
  saying whether reads and writes reach the store; a stored value is the pair
  \<open>(r, key)\<close> that line 67 of \<open>batched_cache\<close> writes, where \<open>r\<close> may be \<open>None\<close>.
  The store is configured with \<open>maxsize=10000000\<close>; the model stays below that bound, so
  nothing is evicted.
\<close>

record ('c, 'r) cache =
  readable :: bool
  writable :: bool
  entries :: "'c key \<rightharpoonup> ('r option \<times> 'c key)"

text \<open>\<open>RETRIEVAL_CACHE.get(k, None)\<close>: the stored value, or the default \<open>None\<close>.\<close>

definition cache_get ::
  "('c, 'r) cache \<Rightarrow> 'c key \<Rightarrow> error + ('r option \<times> 'c key) option" where
  "cache_get c k = (if readable c then Inr (entries c k) else Inl CacheError)"

text \<open>\<open>RETRIEVAL_CACHE[k] = v\<close>.\<close>

definition cache_put ::
  "('c, 'r) cache \<Rightarrow> 'c key \<Rightarrow> ('r option \<times> 'c key) \<Rightarrow> error + ('c, 'r) cache" where
  "cache_put c k v =
     (if writable c then Inr (c\<lparr>entries := (entries c)(k \<mapsto> v)\<rparr>) else Inl CacheError)"

section \<open>The memoizing wrapper \<open>batched_cache\<close>\<close>

text \<open>
  \<open>RETRIEVAL_CACHE.get(k, None)[0]\<close>: subscripting the default \<open>None\<close> raises
  \<open>TypeError\<close>; subscripting a stored pair gives its first component.
\<close>

definition get_first :: "('c, 'r) cache \<Rightarrow> 'c key \<Rightarrow> error + 'r option" where
  "get_first c k =
     (case cache_get c k of
        Inl e \<Rightarrow> Inl e
      | Inr None \<Rightarrow> Inl TypeError
      | Inr (Some (r, k')) \<Rightarrow> Inr r)"

text \<open>\<open>results = [RETRIEVAL_CACHE.get(k, None)[0] for k in keys]\<close>, left to right.\<close>

fun lookup_all :: "('c, 'r) cache \<Rightarrow> 'c key list \<Rightarrow> error + 'r option list" where
  "lookup_all c [] = Inr []"
| "lookup_all c (k # ks) =
     (case get_first c k of
        Inl e \<Rightarrow> Inl e
      | Inr r \<Rightarrow> (case lookup_all c ks of Inl e \<Rightarrow> Inl e | Inr rs \<Rightarrow> Inr (r # rs)))"

text \<open>
  \<open>keys = [hashkey(cfg=self.cfg, query=q, **search_kwargs) for q in query]\<close>. The call
  raises \<open>TypeError\<close> (two values for one keyword) when \<open>search_kwargs\<close> itself has the
  name \<open>cfg\<close>; \<open>query\<close> is a parameter of the wrapper and never in \<open>search_kwargs\<close>.
  With no query the comprehension body is never run.
\<close>

definition make_keys :: "'c \<Rightarrow> string list \<Rightarrow> 'c kwargs \<Rightarrow> error + 'c key list" where
  "make_keys cfg query search_kwargs =
     (if query = [] then Inr []
      else if ''cfg'' \<in> fst ` set search_kwargs then Inl TypeError
      else Inr (map (\<lambda>q. hashkey ((''cfg'', PCfg cfg) # (''query'', PStr q) # search_kwargs))
                  query))"

text \<open>
  The loop \<open>for n, r in zip(new_indices, new_results): results[n] = r;
  RETRIEVAL_CACHE[keys[n]] = r, keys[n]\<close>. It returns the store as it is when the loop
  ends or raises.
\<close>

fun write_back ::
  "('c, 'r) cache \<Rightarrow> 'c key list \<Rightarrow> 'r option list \<Rightarrow> (nat \<times> 'r) list
     \<Rightarrow> (error + 'r option list) \<times> ('c, 'r) cache" where
  "write_back c keys results [] = (Inr results, c)"
| "write_back c keys results ((n, r) # rest) =
     (if n < length results \<and> n < length keys then
        (case cache_put c (keys ! n) (Some r, keys ! n) of
           Inl e \<Rightarrow> (Inl e, c)
         | Inr c' \<Rightarrow> write_back c' keys (results[n := Some r]) rest)
      else (Inl IndexError, c))"

text \<open>\<open>assert all(r is not None for r in results); return results\<close>.\<close>

definition finish :: "'r option list \<Rightarrow> error + 'r list" where
  "finish results =
     (if list_all (\<lambda>r. r \<noteq> None) results then Inr (map the results) else Inl AssertionError)"

text \<open>
  \<open>search_kwargs.pop("disable_cache", os.environ.get("DISABLE_CACHE", False))\<close>: the value
  given with the call when there is one, else the environment variable (a string when
  set), else \<open>False\<close>.
\<close>

definition disable_cache_of :: "string option \<Rightarrow> 'c kwargs \<Rightarrow> bool" where
  "disable_cache_of env kw =
     (case map_of kw ''disable_cache'' of
        Some v \<Rightarrow> truthy v
      | None \<Rightarrow> (case env of Some s \<Rightarrow> s \<noteq> [] | None \<Rightarrow> False))"

definition pop_disable_cache :: "'c kwargs \<Rightarrow> 'c kwargs" where
  "pop_disable_cache kw = filter (\<lambda>kv. fst kv \<noteq> ''disable_cache'') kw"

definition coerce_query :: "query_arg \<Rightarrow> string list" where
  "coerce_query query = (case query of QStr s \<Rightarrow> [s] | QList qs \<Rightarrow> qs)"

text \<open>
  The wrapper. \<open>func\<close> is the decorated search (called as \<open>func(self, query,
  **search_kwargs)\<close>), \<open>cfg\<close> is \<open>self.cfg\<close>, \<open>env\<close> the value of the environment variable
  \<open>DISABLE_CACHE\<close>. The result is the outcome of the call, the store afterwards, and the
  list of argument pairs \<open>func\<close> was invoked with, in order.
\<close>

definition wrapper ::
  "(string list \<Rightarrow> 'c kwargs \<Rightarrow> error + 'r list) \<Rightarrow> 'c \<Rightarrow> string option \<Rightarrow> ('c, 'r) cache
     \<Rightarrow> query_arg \<Rightarrow> 'c kwargs
     \<Rightarrow> (error + 'r list) \<times> ('c, 'r) cache \<times> (string list \<times> 'c kwargs) list" where
  "wrapper func cfg env c query kw =
     (let query = coerce_query query;
          disable_cache = disable_cache_of env kw;
          search_kwargs = pop_disable_cache kw
      in if disable_cache then (func query search_kwargs, c, [(query, search_kwargs)])
         else
           (case make_keys cfg query search_kwargs of
              Inl e \<Rightarrow> (Inl e, c, [])
            | Inr keys \<Rightarrow>
                (case lookup_all c keys of
                   Inl e \<Rightarrow> (Inl e, c, [])
                 | Inr results \<Rightarrow>
                     (let new_query = map fst (filter (\<lambda>qr. snd qr = None) (zip query results));
                          new_indices =
                            map fst (filter (\<lambda>nr. snd nr = None) (enumerate 0 results))
                      in if new_query \<noteq> [] then
                           (case func new_query search_kwargs of
                              Inl e \<Rightarrow> (Inl e, c, [(new_query, search_kwargs)])
                            | Inr new_results \<Rightarrow>
                                (case write_back c keys results (zip new_indices new_results) of
                                   (Inl e, c') \<Rightarrow> (Inl e, c', [(new_query, search_kwargs)])
                                 | (Inr results', c') \<Rightarrow>
                                     (finish results', c', [(new_query, search_kwargs)])))
                         else (finish results, c, [])))))"

text \<open>
  \<open>LocalRetriever.search\<close>, the function the decorator wraps. \<open>pipeline\<close> is
  \<open>self.query_preprocess_pipeline\<close>, \<open>search_batch\<close> the abstract method of the same name;
  \<open>no_preprocess\<close> is taken out of the keywords by the signature. The progress logger
  has no effect on the result.
\<close>

function chunks :: "nat \<Rightarrow> 'a list \<Rightarrow> 'a list list" where
  "chunks n xs = (if n = 0 \<or> xs = [] then [] else take n xs # chunks n (drop n xs))"
  by pat_completeness auto
termination
  by (relation "measure (\<lambda>(n, xs). length xs)") auto

declare chunks.simps [simp del]

fun search_batches ::
  "(string list \<Rightarrow> 'c kwargs \<Rightarrow> error + 'r list) \<Rightarrow> 'c kwargs \<Rightarrow> string list list
     \<Rightarrow> error + 'r list" where
  "search_batches search_batch kw [] = Inr []"
| "search_batches search_batch kw (b # bs) =
     (case search_batch b kw of
        Inl e \<Rightarrow> Inl e
      | Inr rs \<Rightarrow>
          (case search_batches search_batch kw bs of
             Inl e \<Rightarrow> Inl e
           | Inr rest \<Rightarrow> Inr (rs @ rest)))"

definition local_search ::
  "(string \<Rightarrow> string) \<Rightarrow> int \<Rightarrow> (string list \<Rightarrow> 'c kwargs \<Rightarrow> error + 'r list)
     \<Rightarrow> query_arg \<Rightarrow> 'c kwargs \<Rightarrow> error + 'r list" where
  "local_search pipeline batch_size search_batch query kw =
     (let query = coerce_query query;
          no_preprocess = (case map_of kw ''no_preprocess'' of Some v \<Rightarrow> truthy v | None \<Rightarrow> False);
          search_kwargs = filter (\<lambda>kv. fst kv \<noteq> ''no_preprocess'') kw;
          query = (if \<not> no_preprocess then map pipeline query else query)
      in if batch_size = 0 then Inl ValueError
         else if batch_size < 0 then Inr []
         else search_batches search_batch search_kwargs (chunks (nat batch_size) query))"

section \<open>Cache hits and example data\<close>

text \<open>
  A key is a hit when the store holds a pair for it whose first component is a result;
  \<open>stored\<close> reads that result.
\<close>

definition hit :: "('c, 'r) cache \<Rightarrow> 'c key \<Rightarrow> bool" where
  "hit c k = (case entries c k of Some (Some r, k') \<Rightarrow> True | _ \<Rightarrow> False)"

definition stored :: "('c, 'r) cache \<Rightarrow> 'c key \<Rightarrow> 'r" where
  "stored c k = the (fst (the (entries c k)))"

text \<open>
  Concrete data for the closed theorems: an underlying search that answers each query with
  its length, the configuration \<open>0\<close>, and four stores: an empty one, one that holds the
  result \<open>7\<close> for the query \<open>a\<close>, one that holds \<open>None\<close> for it, and one that cannot be
  reached.
\<close>

definition ex_func :: "string list \<Rightarrow> nat kwargs \<Rightarrow> error + nat list" where
  "ex_func qs kw = Inr (map length qs)"

definition ex_key :: "string \<Rightarrow> nat key" where
  "ex_key q = [(''cfg'', PCfg 0), (''query'', PStr q)]"

definition ex_empty_cache :: "(nat, nat) cache" where
  "ex_empty_cache = \<lparr>readable = True, writable = True, entries = Map.empty\<rparr>"

definition ex_warm_cache :: "(nat, nat) cache" where
  "ex_warm_cache =
     \<lparr>readable = True, writable = True, entries = [ex_key ''a'' \<mapsto> (Some 7, ex_key ''a'')]\<rparr>"

definition ex_none_cache :: "(nat, nat) cache" where
  "ex_none_cache =
     \<lparr>readable = True, writable = True, entries = [ex_key ''a'' \<mapsto> (None, ex_key ''a'')]\<rparr>"

definition ex_refilled_cache :: "(nat, nat) cache" where
  "ex_refilled_cache =
     \<lparr>readable = True, writable = True, entries = [ex_key ''a'' \<mapsto> (Some 1, ex_key ''a'')]\<rparr>"

definition ex_readonly_cache :: "(nat, nat) cache" where
  "ex_readonly_cache =
     \<lparr>readable = True, writable = False, entries = [ex_key ''a'' \<mapsto> (None, ex_key ''a'')]\<rparr>"

definition ex_down_cache :: "(nat, nat) cache" where
  "ex_down_cache = \<lparr>readable = False, writable = False, entries = Map.empty\<rparr>"

section \<open>The searcher \<open>KylinLLMSearcher\<close>: data\<close>

text \<open>
  A chat message is a pair of role and content, a prompt a list of messages. A retriever
  answers a query with a dictionary (\<open>texts\<close>, and \<open>indices\<close> or \<open>urls\<close>), kept as an
  association list from field name to a list of strings.
\<close>

type_synonym message = "string \<times> string"
type_synonym prompt = "message list"
type_synonym group = "(string \<times> string list) list"

text \<open>
  The context dictionary built at lines 287-296 (\<open>text\<close> becomes \<open>None\<close> in a summarized
  copy), and one entry of a round of \<open>retrieval_history\<close> (lines 298-308);
  \<open>rr_summarized\<close> is the optional key \<open>summarized_contexts\<close>.
\<close>

record ctx =
  ctx_query :: string
  ctx_retriever :: string
  ctx_text :: "string option"
  ctx_full_text :: string
  ctx_source :: string

record round_record =
  rr_retriever :: string
  rr_query :: string
  rr_contexts :: "ctx list"
  rr_summarized :: "ctx list option"

text \<open>
  The collaborators are the language model behind \<open>self.searcher.chat\<close> and the
  retrievers behind \<open>self.retrievers[name].search\<close>. Each call is recorded as an event
  with its arguments and its outcome; a collaborator answers from the events so far and
  its arguments, so it may answer the same request differently each time.
\<close>

datatype event =
    Chat "prompt list" "error + string list"
  | Search string "string list" int bool "error + group list"

record collaborators =
  chat :: "event list \<Rightarrow> prompt list \<Rightarrow> error + string list"
  search :: "event list \<Rightarrow> string \<Rightarrow> string list \<Rightarrow> int \<Rightarrow> bool \<Rightarrow> error + group list"

text \<open>
  The fields of \<open>self\<close> that \<open>inner_search\<close> reads. \<open>retrievers\<close> lists the names of the
  dictionary \<open>self.retrievers\<close> in its iteration order. The prompt constants of
  \<open>kylin_prompts\<close> are not among the sources and are taken as parameters.
\<close>

record searcher =
  rewrite :: bool
  verify :: bool
  summary_context :: bool
  retriever_top_k :: int
  disable_cache :: bool
  retrievers :: "string list"
  rewrite_prompts :: "(string \<times> prompt) list"
  verify_prompt :: prompt
  summary_prompt :: prompt

section \<open>The searcher: strings\<close>

definition nl :: string where
  "nl = [CHR 0x0A]"

text \<open>\<open>str(n)\<close> for a natural number, as the f-string \<open>{n}\<close> prints it.\<close>

function str_nat :: "nat \<Rightarrow> string" where
  "str_nat n =
     (if n < 10 then [char_of (48 + n)] else str_nat (n div 10) @ [char_of (48 + n mod 10)])"
  by pat_completeness auto
termination
  by (relation "measure (\<lambda>n. n)") auto

declare str_nat.simps [simp del]

text \<open>
  \<open>str.lower()\<close> on the bytes of the string: only ASCII capitals change. No character
  outside ASCII lowers to a letter of the words matched below except to \<open>i\<close> followed
  by a combining mark, which no pattern accepts, so the matches are those of Python.
\<close>

definition lower_char :: "char \<Rightarrow> char" where
  "lower_char c =
     (let n = (of_char c :: nat) in if 65 \<le> n \<and> n \<le> 90 then char_of (n + 32) else c)"

definition lower :: "string \<Rightarrow> string" where
  "lower s = map lower_char s"

text \<open>The f-string \<open>{ctx['text']}\<close>: a missing text prints as \<open>None\<close>.\<close>

definition fmt_text :: "string option \<Rightarrow> string" where
  "fmt_text t = (case t of None \<Rightarrow> ''None'' | Some s \<Rightarrow> s)"

text \<open>
  \<open>not_relevant\<close> of \<open>summarize_contexts\<close>: \<open>re.match\<close> anchors each pattern at the start
  of the lowered text.
\<close>

definition not_relevant :: "string \<Rightarrow> bool" where
  "not_relevant text =
     (let t = lower text
      in prefix ''context does not provide'' t \<or> prefix ''context does not contain'' t
         \<or> prefix ''no relevant information'' t)"

section \<open>The searcher: calls of the collaborators\<close>

definition call_chat ::
  "collaborators \<Rightarrow> prompt list \<Rightarrow> event list \<Rightarrow> (error + string list) \<times> event list" where
  "call_chat col prompts tr = (let r = chat col tr prompts in (r, tr @ [Chat prompts r]))"

definition call_search ::
  "collaborators \<Rightarrow> string \<Rightarrow> string list \<Rightarrow> int \<Rightarrow> bool \<Rightarrow> event list
     \<Rightarrow> (error + group list) \<times> event list" where
  "call_search col name qs top_k dc tr =
     (let r = search col tr name qs top_k dc in (r, tr @ [Search name qs top_k dc r]))"

text \<open>The subscript \<open>[0]\<close> on the list a collaborator returned.\<close>

definition first :: "error + 'a list \<Rightarrow> error + 'a" where
  "first r = (case r of Inl e \<Rightarrow> Inl e | Inr [] \<Rightarrow> Inl IndexError | Inr (x # xs) \<Rightarrow> Inr x)"

section \<open>The searcher: \<open>rewrite_query\<close>, \<open>verify_contexts\<close>, \<open>summarize_contexts\<close>\<close>

definition rewrite_user_prompt :: "string \<Rightarrow> string list \<Rightarrow> string" where
  "rewrite_user_prompt info failing_queries =
     ''Query: '' @ info @
     (if length failing_queries > 0 then
        nl @ ''Here are some queries that failed to retrieve the information, ''
           @ ''please avoid using them.''
           @ concat (map (\<lambda>q. nl @ ''Failing Query: '' @ q) failing_queries)
      else [])"

text \<open>
  The body of \<open>rewrite_query\<close> once \<open>failing_queries\<close> is known:
  \<open>rewrite_prompts[engine_name]\<close> raises \<open>KeyError\<close> for an unknown name.
\<close>

definition rewrite_with ::
  "searcher \<Rightarrow> collaborators \<Rightarrow> string \<Rightarrow> string \<Rightarrow> string list \<Rightarrow> event list
     \<Rightarrow> (error + string) \<times> event list" where
  "rewrite_with self col info engine_name failing_queries tr =
     (case map_of (rewrite_prompts self) engine_name of
        None \<Rightarrow> (Inl KeyError, tr)
      | Some p \<Rightarrow>
          (let (r, tr') =
                 call_chat col [p @ [(''user'', rewrite_user_prompt info failing_queries)]] tr
           in (first r, tr')))"

definition rewrite_query ::
  "searcher \<Rightarrow> collaborators \<Rightarrow> string \<Rightarrow> string \<Rightarrow> round_record list \<Rightarrow> event list
     \<Rightarrow> (error + string) \<times> event list" where
  "rewrite_query self col info engine_name failing_history tr =
     (let failing_queries = map rr_query failing_history
      in rewrite_with self col info engine_name failing_queries tr)"

definition verify_user_prompt :: "ctx list \<Rightarrow> string \<Rightarrow> string" where
  "verify_user_prompt contexts question =
     concat (map (\<lambda>nc. ''Context '' @ str_nat (fst nc) @ '': '' @ fmt_text (ctx_text (snd nc))
                        @ nl @ nl)
               (enumerate 0 contexts))
     @ ''Topic: '' @ question"

definition verify_contexts ::
  "searcher \<Rightarrow> collaborators \<Rightarrow> ctx list \<Rightarrow> string \<Rightarrow> event list
     \<Rightarrow> (error + bool) \<times> event list" where
  "verify_contexts self col contexts question tr =
     (if \<not> verify self then (Inr True, tr)
      else
        (let (r, tr') =
               call_chat col
                 [verify_prompt self @ [(''user'', verify_user_prompt contexts question)]] tr
         in (case first r of
               Inl e \<Rightarrow> (Inl e, tr')
             | Inr response \<Rightarrow> (Inr (sublist ''yes'' (lower response)), tr'))))"

text \<open>
  \<open>for summ, ctx in zip(responses, summarized)\<close> on the deep copy: a context beyond the
  last response keeps its text.
\<close>

fun apply_summaries :: "string list \<Rightarrow> ctx list \<Rightarrow> ctx list" where
  "apply_summaries (summ # rest) (c # cs) =
     c\<lparr>ctx_text := (if not_relevant summ then None else Some summ)\<rparr> # apply_summaries rest cs"
| "apply_summaries [] cs = cs"
| "apply_summaries rest [] = []"

definition summary_prompts :: "searcher \<Rightarrow> ctx list \<Rightarrow> string \<Rightarrow> prompt list" where
  "summary_prompts self contexts question =
     map (\<lambda>c. summary_prompt self
                @ [(''user'', ''Context: '' @ ctx_full_text c @ nl @ nl
                              @ ''Question: '' @ question)])
       contexts"

definition summarize_contexts ::
  "searcher \<Rightarrow> collaborators \<Rightarrow> ctx list \<Rightarrow> string \<Rightarrow> event list
     \<Rightarrow> (error + ctx list) \<times> event list" where
  "summarize_contexts self col contexts question tr =
     (let prompts = summary_prompts self contexts question;
          (r, tr') = call_chat col prompts tr
      in (case r of
            Inl e \<Rightarrow> (Inl e, tr')
          | Inr responses \<Rightarrow> (Inr (apply_summaries responses contexts), tr')))"

section \<open>The searcher: \<open>inner_search\<close>\<close>

text \<open>
  Lines 284-296: the identifiers are \<open>indices\<close> if present, else \<open>urls\<close> (the assertion
  fails when both are missing); \<open>ctxs["texts"]\<close> raises \<open>KeyError\<close> when missing; \<open>zip\<close>
  pairs texts and identifiers in order and stops at the shorter list.
\<close>

definition context_of :: "string \<Rightarrow> string \<Rightarrow> string \<times> string \<Rightarrow> ctx" where
  "context_of retriever query_to_search ts =
     \<lparr>ctx_query = query_to_search, ctx_retriever = retriever, ctx_text = Some (fst ts),
      ctx_full_text = fst ts, ctx_source = snd ts\<rparr>"

definition build_contexts :: "string \<Rightarrow> string \<Rightarrow> group \<Rightarrow> error + ctx list" where
  "build_contexts retriever query_to_search g =
     (case (case map_of g ''indices'' of
              Some ids \<Rightarrow> Inr ids
            | None \<Rightarrow> (case map_of g ''urls'' of
                         None \<Rightarrow> Inl AssertionError
                       | Some urls \<Rightarrow> Inr urls)) of
        Inl e \<Rightarrow> Inl e
      | Inr ids \<Rightarrow>
          (case map_of g ''texts'' of
             None \<Rightarrow> Inl KeyError
           | Some texts \<Rightarrow>
               Inr (map (context_of retriever query_to_search) (zip texts ids))))"

text \<open>\<open>[i[idx] for i in retrieval_history[:turn_num]]\<close>.\<close>

fun nth_all :: "nat \<Rightarrow> 'a list list \<Rightarrow> error + 'a list" where
  "nth_all idx [] = Inr []"
| "nth_all idx (r # rs) =
     (if idx < length r then
        (case nth_all idx rs of Inl e \<Rightarrow> Inl e | Inr xs \<Rightarrow> Inr (r ! idx # xs))
      else Inl IndexError)"

text \<open>\<open>retrieval_history[turn_num].append(rec)\<close>.\<close>

definition append_record ::
  "nat \<Rightarrow> round_record \<Rightarrow> round_record list list \<Rightarrow> error + round_record list list" where
  "append_record turn_num rec history =
     (if turn_num < length history then Inr (history[turn_num := history ! turn_num @ [rec]])
      else Inl IndexError)"

text \<open>\<open>retrieval_history[turn_num][-1]["summarized_contexts"] = summarized\<close>.\<close>

definition set_summarized ::
  "nat \<Rightarrow> ctx list \<Rightarrow> round_record list list \<Rightarrow> error + round_record list list" where
  "set_summarized turn_num summarized history =
     (if turn_num < length history \<and> history ! turn_num \<noteq> [] then
        Inr (history[turn_num :=
               butlast (history ! turn_num)
               @ [(last (history ! turn_num))\<lparr>rr_summarized := Some summarized\<rparr>]])
      else Inl IndexError)"

text \<open>
  The body of the loop over \<open>enumerate(self.retrievers)\<close> (lines 267-311). The state is
  the pair of \<open>contexts\<close> and \<open>retrieval_history\<close>.
\<close>

definition retriever_step ::
  "searcher \<Rightarrow> collaborators \<Rightarrow> string \<Rightarrow> nat \<Rightarrow> nat \<Rightarrow> string
     \<Rightarrow> ctx list \<times> round_record list list \<Rightarrow> event list
     \<Rightarrow> (error + ctx list \<times> round_record list list) \<times> event list" where
  "retriever_step self col query turn_num idx retriever st tr =
     (let (contexts, retrieval_history) = st
      in case (if rewrite self then
                 (case nth_all idx (take turn_num retrieval_history) of
                    Inl e \<Rightarrow> (Inl e, tr)
                  | Inr failing_history \<Rightarrow>
                      rewrite_query self col query retriever failing_history tr)
               else (Inr query, tr)) of
           (Inl e, tr1) \<Rightarrow> (Inl e, tr1)
         | (Inr query_to_search, tr1) \<Rightarrow>
             (let (r, tr2) =
                    call_search col retriever [query_to_search] (retriever_top_k self)
                      (disable_cache self) tr1
              in case first r of
                   Inl e \<Rightarrow> (Inl e, tr2)
                 | Inr g \<Rightarrow>
                     (case build_contexts retriever query_to_search g of
                        Inl e \<Rightarrow> (Inl e, tr2)
                      | Inr ctxs \<Rightarrow>
                          (case append_record turn_num
                                  \<lparr>rr_retriever = retriever, rr_query = query_to_search,
                                   rr_contexts = ctxs, rr_summarized = None\<rparr>
                                  retrieval_history of
                             Inl e \<Rightarrow> (Inl e, tr2)
                           | Inr history1 \<Rightarrow>
                               if summary_context self then
                                 (case summarize_contexts self col ctxs query tr2 of
                                    (Inl e, tr3) \<Rightarrow> (Inl e, tr3)
                                  | (Inr summarized, tr3) \<Rightarrow>
                                      (case set_summarized turn_num summarized history1 of
                                         Inl e \<Rightarrow> (Inl e, tr3)
                                       | Inr history2 \<Rightarrow>
                                           (Inr (contexts
                                                 @ filter (\<lambda>i. ctx_text i \<noteq> None) summarized,
                                                 history2), tr3)))
                               else (Inr (contexts @ ctxs, history1), tr2)))))"

fun run_retrievers ::
  "searcher \<Rightarrow> collaborators \<Rightarrow> string \<Rightarrow> nat \<Rightarrow> nat \<Rightarrow> string list
     \<Rightarrow> ctx list \<times> round_record list list \<Rightarrow> event list
     \<Rightarrow> (error + ctx list \<times> round_record list list) \<times> event list" where
  "run_retrievers self col query turn_num idx [] st tr = (Inr st, tr)"
| "run_retrievers self col query turn_num idx (retriever # rest) st tr =
     (case retriever_step self col query turn_num idx retriever st tr of
        (Inl e, tr') \<Rightarrow> (Inl e, tr')
      | (Inr st', tr') \<Rightarrow> run_retrievers self col query turn_num (Suc idx) rest st' tr')"

text \<open>
  The loop \<open>while turn_num < total_turn_num\<close> (lines 263-317). Each iteration resets
  \<open>contexts\<close>, appends an empty round, runs the retrievers and verifies; it leaves the
  loop on a passed verification, on an exception, or when the turns are used up.
\<close>

function search_loop ::
  "searcher \<Rightarrow> collaborators \<Rightarrow> string \<Rightarrow> nat \<Rightarrow> nat
     \<Rightarrow> ctx list \<times> round_record list list \<Rightarrow> event list
     \<Rightarrow> (error + ctx list \<times> round_record list list) \<times> event list" where
  "search_loop self col query total_turn_num turn_num st tr =
     (if turn_num < total_turn_num then
        (case run_retrievers self col query turn_num 0 (retrievers self)
                ([], snd st @ [[]]) tr of
           (Inl e, tr1) \<Rightarrow> (Inl e, tr1)
         | (Inr st1, tr1) \<Rightarrow>
             (case verify_contexts self col (fst st1) query tr1 of
                (Inl e, tr2) \<Rightarrow> (Inl e, tr2)
              | (Inr verification, tr2) \<Rightarrow>
                  if verification then (Inr st1, tr2)
                  else search_loop self col query total_turn_num (Suc turn_num) st1 tr2))
      else (Inr st, tr))"
  by pat_completeness auto
termination
  by (relation "measure (\<lambda>(self, col, query, total, turn, st, tr). total - turn)") auto

declare search_loop.simps [simp del]

text \<open>
  \<open>inner_search\<close>: \<open>total_turn_num = 3 if self.verify else 1\<close>. \<open>contexts\<close> is unbound
  before the loop; the loop body always runs at least once and binds it.
\<close>

definition inner_search ::
  "searcher \<Rightarrow> collaborators \<Rightarrow> string \<Rightarrow> event list
     \<Rightarrow> (error + ctx list \<times> round_record list list) \<times> event list" where
  "inner_search self col query tr =
     search_loop self col query (if verify self then 3 else 1) 0 ([], []) tr"

section \<open>The retry loop in the words of the specification\<close>

text \<open>
  The specification describes the same loop with the failure history carried forward:
  \<open>runRound(query, retrievers, failureHistoryPerRetriever)\<close> takes, for each retriever,
  the list of the query strings that retriever used in the prior failed rounds; after a
  failed verification each retriever's list is extended by the query it has just used.
  The definitions below follow these words; they are compared with \<open>inner_search\<close>
  later.
\<close>

definition run_retriever_spec ::
  "searcher \<Rightarrow> collaborators \<Rightarrow> string \<Rightarrow> string \<Rightarrow> string list \<Rightarrow> event list
     \<Rightarrow> (error + round_record \<times> ctx list) \<times> event list" where
  "run_retriever_spec self col query retriever failed tr =
     (case (if rewrite self then rewrite_with self col query retriever failed tr
            else (Inr query, tr)) of
        (Inl e, tr1) \<Rightarrow> (Inl e, tr1)
      | (Inr q, tr1) \<Rightarrow>
          (let (r, tr2) =
                 call_search col retriever [q] (retriever_top_k self) (disable_cache self) tr1
           in case first r of
                Inl e \<Rightarrow> (Inl e, tr2)
              | Inr g \<Rightarrow>
                  (case build_contexts retriever q g of
                     Inl e \<Rightarrow> (Inl e, tr2)
                   | Inr ctxs \<Rightarrow>
                       if summary_context self then
                         (case summarize_contexts self col ctxs query tr2 of
                            (Inl e, tr3) \<Rightarrow> (Inl e, tr3)
                          | (Inr summarized, tr3) \<Rightarrow>
                              (Inr (\<lparr>rr_retriever = retriever, rr_query = q,
                                     rr_contexts = ctxs, rr_summarized = Some summarized\<rparr>,
                                    filter (\<lambda>i. ctx_text i \<noteq> None) summarized), tr3))
                       else
                         (Inr (\<lparr>rr_retriever = retriever, rr_query = q, rr_contexts = ctxs,
                                rr_summarized = None\<rparr>, ctxs), tr2))))"

fun run_round_spec ::
  "searcher \<Rightarrow> collaborators \<Rightarrow> string \<Rightarrow> (string \<times> string list) list \<Rightarrow> event list
     \<Rightarrow> (error + round_record list \<times> ctx list) \<times> event list" where
  "run_round_spec self col query [] tr = (Inr ([], []), tr)"
| "run_round_spec self col query (rf # rest) tr =
     (case run_retriever_spec self col query (fst rf) (snd rf) tr of
        (Inl e, tr1) \<Rightarrow> (Inl e, tr1)
      | (Inr (rec, cs), tr1) \<Rightarrow>
          (case run_round_spec self col query rest tr1 of
             (Inl e, tr2) \<Rightarrow> (Inl e, tr2)
           | (Inr (recs, css), tr2) \<Rightarrow> (Inr (rec # recs, cs @ css), tr2)))"

function retry_loop_spec ::
  "searcher \<Rightarrow> collaborators \<Rightarrow> string \<Rightarrow> nat \<Rightarrow> nat \<Rightarrow> string list list
     \<Rightarrow> ctx list \<times> round_record list list \<Rightarrow> event list
     \<Rightarrow> (error + ctx list \<times> round_record list list) \<times> event list" where
  "retry_loop_spec self col query max_turns turn failed st tr =
     (if turn < max_turns then
        (case run_round_spec self col query (zip (retrievers self) failed) tr of
           (Inl e, tr1) \<Rightarrow> (Inl e, tr1)
         | (Inr (recs, contexts), tr1) \<Rightarrow>
             (case verify_contexts self col contexts query tr1 of
                (Inl e, tr2) \<Rightarrow> (Inl e, tr2)
              | (Inr pass, tr2) \<Rightarrow>
                  if pass then (Inr (contexts, snd st @ [recs]), tr2)
                  else retry_loop_spec self col query max_turns (Suc turn)
                         (map (\<lambda>fr. fst fr @ [rr_query (snd fr)]) (zip failed recs))
                         (contexts, snd st @ [recs]) tr2))
      else (Inr st, tr))"
  by pat_completeness auto
termination
  by (relation "measure (\<lambda>(self, col, query, total, turn, failed, st, tr). total - turn)") auto

declare retry_loop_spec.simps [simp del]

definition inner_search_spec ::
  "searcher \<Rightarrow> collaborators \<Rightarrow> string \<Rightarrow> event list
     \<Rightarrow> (error + ctx list \<times> round_record list list) \<times> event list" where
  "inner_search_spec self col query tr =
     retry_loop_spec self col query (if verify self then 3 else 1) 0
       (replicate (length (retrievers self)) []) ([], []) tr"

text \<open>
  What a round hands on as evidence, read off its records: the summarized contexts that
  kept a text when there is a summary, else the contexts; and the number of retriever
  calls among the events.
\<close>

definition record_contexts :: "round_record \<Rightarrow> ctx list" where
  "record_contexts rec =
     (case rr_summarized rec of
        None \<Rightarrow> rr_contexts rec
      | Some summarized \<Rightarrow> filter (\<lambda>i. ctx_text i \<noteq> None) summarized)"

definition round_contexts :: "round_record list \<Rightarrow> ctx list" where
  "round_contexts recs = concat (map record_contexts recs)"

fun is_search :: "event \<Rightarrow> bool" where
  "is_search (Search name qs top_k dc r) = True"
| "is_search (Chat prompts r) = False"

definition search_calls :: "event list \<Rightarrow> nat" where
  "search_calls tr = length (filter is_search tr)"

section \<open>Collaborator contracts, example data and predicates on events\<close>

text \<open>
  The collaborators keep their contracts when the language model answers every batch of
  prompts with one response per prompt, every retriever answers a one-query batch with
  at least one result group that has \<open>texts\<close> and one of \<open>indices\<close> and \<open>urls\<close>, and,
  if queries are rewritten, every configured retriever has a rewrite prompt. The
  verification always fails when no response to a verification prompt for the query
  contains \<open>yes\<close>.
\<close>

definition well_behaved :: "searcher \<Rightarrow> collaborators \<Rightarrow> bool" where
  "well_behaved self col \<longleftrightarrow>
     (\<forall>tr ps. \<exists>rs. chat col tr ps = Inr rs \<and> length rs = length ps) \<and>
     (\<forall>tr R q k d. \<exists>g gs. search col tr R [q] k d = Inr (g # gs)
          \<and> map_of g ''texts'' \<noteq> None
          \<and> (map_of g ''indices'' \<noteq> None \<or> map_of g ''urls'' \<noteq> None)) \<and>
     (rewrite self \<longrightarrow> (\<forall>R\<in>set (retrievers self). map_of (rewrite_prompts self) R \<noteq> None))"

definition always_rejects :: "searcher \<Rightarrow> collaborators \<Rightarrow> string \<Rightarrow> bool" where
  "always_rejects self col query \<longleftrightarrow>
     (\<forall>tr cs r rs.
        chat col tr [verify_prompt self @ [(''user'', verify_user_prompt cs query)]] = Inr (r # rs)
        \<longrightarrow> \<not> sublist ''yes'' (lower r))"

text \<open>
  Concrete data for the closed theorems about the searcher: a retriever result, a language
  model that answers every prompt with \<open>no\<close>, retrievers that answer every query with that
  result, and a searcher with two retrievers that rewrites and verifies.
\<close>

definition ex_group :: group where
  "ex_group = [(''texts'', [''Paris is the capital of France.'']), (''indices'', [''doc1''])]"

definition ex_col :: collaborators where
  "ex_col = \<lparr>chat = (\<lambda>tr ps. Inr (map (\<lambda>p. ''no'') ps)),
             search = (\<lambda>tr R qs k d. Inr (map (\<lambda>q. ex_group) qs))\<rparr>"

definition ex_self :: searcher where
  "ex_self = \<lparr>rewrite = True, verify = True, summary_context = False, retriever_top_k = 10,
              disable_cache = False, retrievers = [''bm25'', ''bing''],
              rewrite_prompts = [(''bm25'', []), (''bing'', [])],
              verify_prompt = [], summary_prompt = []\<rparr>"

definition ex_plain :: searcher where
  "ex_plain = ex_self\<lparr>rewrite := False, verify := False\<rparr>"

text \<open>
  A retriever result with neither \<open>indices\<close> nor \<open>urls\<close>, retrievers that answer with it,
  a language model that finds every context irrelevant, a searcher that summarizes, and
  the context built from the first example result.
\<close>

definition ex_bad_group :: group where
  "ex_bad_group = [(''texts'', [''Paris is the capital of France.''])]"

definition ex_bad_col :: collaborators where
  "ex_bad_col = \<lparr>chat = (\<lambda>tr ps. Inr (map (\<lambda>p. ''no'') ps)),
                 search = (\<lambda>tr R qs k d. Inr (map (\<lambda>q. ex_bad_group) qs))\<rparr>"

definition ex_sum_col :: collaborators where
  "ex_sum_col = \<lparr>chat = (\<lambda>tr ps. Inr (map (\<lambda>p. ''No relevant information.'') ps)),
                 search = (\<lambda>tr R qs k d. Inr (map (\<lambda>q. ex_group) qs))\<rparr>"

definition ex_sum_self :: searcher where
  "ex_sum_self = ex_self\<lparr>rewrite := False, verify := False, summary_context := True\<rparr>"

definition ex_ctx :: ctx where
  "ex_ctx = \<lparr>ctx_query = ''q'', ctx_retriever = ''bm25'',
             ctx_text = Some ''Paris is the capital of France.'',
             ctx_full_text = ''Paris is the capital of France.'', ctx_source = ''doc1''\<rparr>"

text \<open>
  A retriever call whose first result group has neither \<open>indices\<close> nor \<open>urls\<close>.
\<close>

fun malformed :: "event \<Rightarrow> bool" where
  "malformed (Search name qs top_k dc (Inr (g # gs))) =
     (map_of g ''indices'' = None \<and> map_of g ''urls'' = None)"
| "malformed e = False"

text \<open>
  The events of a call end the search on a malformed result when, if any of them is
  malformed, the outcome is the failed assertion and the malformed call is the last
  event.
\<close>

definition fatal_stop :: "event list \<Rightarrow> error + 'a \<Rightarrow> bool" where
  "fatal_stop evs res \<longleftrightarrow>
     (list_ex malformed evs \<longrightarrow>
        res = Inl AssertionError \<and> malformed (last evs) \<and> \<not> list_ex malformed (butlast evs))"

text \<open>The three phrases of \<open>not_relevant\<close>, at the start of a text and anywhere in it.\<close>

definition begins_with_phrase :: "string \<Rightarrow> bool" where
  "begins_with_phrase s \<longleftrightarrow>
     prefix ''context does not provide'' s \<or> prefix ''context does not contain'' s
     \<or> prefix ''no relevant information'' s"

definition contains_phrase :: "string \<Rightarrow> bool" where
  "contains_phrase s \<longleftrightarrow>
     sublist ''context does not provide'' s \<or> sublist ''context does not contain'' s
     \<or> sublist ''no relevant information'' s"

text \<open>
  What the language model receives when a query is rewritten, in the words of the claim:
  the events \<open>evs\<close> hold, after exactly \<open>pos\<close> retriever calls, a chat with one prompt,
  the rewrite prompt of the retriever \<open>R\<close> followed by the user message that names the
  information \<open>info\<close> and lists exactly the queries \<open>avoid\<close>, in order, as failing queries
  (none are mentioned when the list is empty); the first response is \<open>q\<close>, and the next
  event is the call of the retriever \<open>R\<close> with the query \<open>q\<close>.
\<close>

definition rewrite_call_at ::
  "searcher \<Rightarrow> string \<Rightarrow> string \<Rightarrow> string list \<Rightarrow> string \<Rightarrow> nat \<Rightarrow> event list \<Rightarrow> bool" where
  "rewrite_call_at self info R avoid q pos evs \<longleftrightarrow>
     (\<exists>before p rest r after.
        evs = before
              @ [Chat [p @ [(''user'',
                             ''Query: '' @ info
                             @ (if avoid = [] then []
                                else nl @ ''Here are some queries that failed to retrieve the information, please avoid using them.''
                                     @ concat (map (\<lambda>a. nl @ ''Failing Query: '' @ a) avoid)))]]
                   (Inr (q # rest)),
                 Search R [q] (retriever_top_k self) (disable_cache self) r]
              @ after
        \<and> search_calls before = pos
        \<and> map_of (rewrite_prompts self) R = Some p)"

text \<open>
  A language model that answers every prompt with \<open>v\<close> and the number of events so far,
  retrievers that find nothing, and a searcher with two retrievers that rewrites and
  verifies: the rewritten queries of a run are all different.
\<close>

definition ex_rw_col :: collaborators where
  "ex_rw_col = \<lparr>chat = (\<lambda>tr ps. Inr (map (\<lambda>p. ''v'' @ str_nat (length tr)) ps)),
                search = (\<lambda>tr R qs k d. Inr (map (\<lambda>q. [(''texts'', []), (''indices'', [])]) qs))\<rparr>"

definition ex_rw_self :: searcher where
  "ex_rw_self = \<lparr>rewrite = True, verify = True, summary_context = False, retriever_top_k = 10,
                 disable_cache = False, retrievers = [''bm25'', ''bing''],
                 rewrite_prompts = [(''bm25'', [(''system'', ''Rewrite for BM25.'')]),
                                    (''bing'', [(''system'', ''Rewrite for Bing.'')])],
                 verify_prompt = [], summary_prompt = []\<rparr>"

definition ex_rw_record :: "string \<Rightarrow> string \<Rightarrow> round_record" where
  "ex_rw_record R q = \<lparr>rr_retriever = R, rr_query = q, rr_contexts = [], rr_summarized = None\<rparr>"

definition ex_rw_history :: "round_record list list" where
  "ex_rw_history =
     [[ex_rw_record ''bm25'' ''v0'', ex_rw_record ''bing'' ''v2''],
      [ex_rw_record ''bm25'' ''v5'', ex_rw_record ''bing'' ''v7''],
      [ex_rw_record ''bm25'' ''v10'', ex_rw_record ''bing'' ''v12'']]"

section \<open>Properties of the memoizing wrapper\<close>

lemmas ex_defs = ex_func_def ex_key_def ex_empty_cache_def ex_warm_cache_def ex_none_cache_def
  ex_refilled_cache_def ex_readonly_cache_def ex_down_cache_def

lemmas wrapper_defs = wrapper_def coerce_query_def disable_cache_of_def pop_disable_cache_def
  make_keys_def get_first_def cache_get_def cache_put_def hashkey_def finish_def

subsection \<open>Caching disabled\<close>

lemma wrapper_disabled:
  "disable_cache_of env kw \<Longrightarrow>
   wrapper func cfg env c query kw =
     (func (coerce_query query) (pop_disable_cache kw), c,
      [(coerce_query query, pop_disable_cache kw)])"
  by (simp add: wrapper_def Let_def)



subsection \<open>Lookups\<close>

lemma make_keys_length:
  "make_keys cfg query kw = Inr keys \<Longrightarrow> length keys = length query"
  by (auto simp: make_keys_def split: if_splits)

lemma get_first_hit:
  "readable c \<Longrightarrow> hit c k \<Longrightarrow> get_first c k = Inr (Some (stored c k))"
  by (auto simp: get_first_def cache_get_def hit_def stored_def split: option.splits prod.splits)

lemma lookup_all_hits:
  "readable c \<Longrightarrow> list_all (hit c) keys \<Longrightarrow>
   lookup_all c keys = Inr (map (\<lambda>k. Some (stored c k)) keys)"
  by (induction keys) (simp_all add: get_first_hit)

lemma lookup_all_hits':
  "keys = [] \<or> readable c \<Longrightarrow> list_all (hit c) keys \<Longrightarrow>
   lookup_all c keys = Inr (map (\<lambda>k. Some (stored c k)) keys)"
  using lookup_all_hits[of c keys] by (cases "keys = []") auto

lemma no_miss_zip:
  "filter (\<lambda>qr. snd qr = None) (zip qs (map (\<lambda>k. Some (g k)) ks)) = []"
  by (induction qs arbitrary: ks) (auto simp: filter_empty_conv in_set_zip)

lemma finish_hits: "finish (map (\<lambda>k. Some (g k)) ks) = Inr (map g ks)"
  by (simp add: finish_def list_all_iff comp_def)

lemma finish_all:
  "finish results = Inr rs \<Longrightarrow> \<forall>i<length results. results ! i \<noteq> None"
  by (auto simp: finish_def list_all_length split: if_splits)

lemma finish_length: "finish results = Inr rs \<Longrightarrow> length rs = length results"
  by (auto simp: finish_def split: if_splits)

lemma lookup_all_sound:
  "lookup_all c keys = Inr results \<Longrightarrow>
   length results = length keys \<and> (keys = [] \<or> readable c) \<and>
   (\<forall>i<length keys. results ! i \<noteq> None \<longrightarrow> hit c (keys ! i))"
proof (induction keys arbitrary: results)
  case Nil
  then show ?case by simp
next
  case (Cons k ks)
  from Cons.prems obtain r rs where
    r: "get_first c k = Inr r" and rs: "lookup_all c ks = Inr rs" and res: "results = r # rs"
    by (auto split: sum.splits)
  from r have rd: "readable c" and h: "r \<noteq> None \<longrightarrow> hit c k"
    by (auto simp: get_first_def cache_get_def hit_def split: if_splits option.splits prod.splits)
  from Cons.IH[OF rs] have ih: "length rs = length ks"
    "\<forall>i<length ks. rs ! i \<noteq> None \<longrightarrow> hit c (ks ! i)" by auto
  show ?case using res rd h ih by (auto simp: nth_Cons split: nat.splits)
qed

lemma new_query_None:
  "map fst (filter (\<lambda>qr. snd qr = None) (zip query results)) \<noteq> [] \<Longrightarrow> None \<in> set results"
  by (auto simp: filter_empty_conv dest: set_zip_rightD)

lemma new_indices_Cons:
  assumes "None \<in> set results"
  shows "\<exists>n ns. map fst (filter (\<lambda>nr. snd nr = None) (enumerate 0 results)) = n # ns
           \<and> n < length results"
proof -
  let ?ni = "map fst (filter (\<lambda>nr. snd nr = None) (enumerate 0 results))"
  from assms obtain i where i: "i < length results" "results ! i = None"
    by (metis in_set_conv_nth)
  then have "(i, None) \<in> set (enumerate 0 results)"
    by (simp add: in_set_enumerate_eq)
  then have "i \<in> set ?ni" using i by force
  then obtain n ns where c: "?ni = n # ns" by (cases ?ni) auto
  then have "n \<in> set ?ni" by simp
  then have "n < length results" by (auto simp: in_set_enumerate_eq)
  with c show ?thesis by simp
qed

subsection \<open>Writing results back\<close>

lemma cache_put_hit:
  "cache_put c k (Some r, k) = Inr c' \<Longrightarrow>
   readable c' = readable c \<and> hit c' k \<and> (\<forall>k'. hit c k' \<longrightarrow> hit c' k')"
  by (auto simp: cache_put_def hit_def split: if_splits)

lemma write_back_inv:
  "write_back c keys results ps = (Inr results', c') \<Longrightarrow>
   length results = length keys \<Longrightarrow>
   \<forall>i<length keys. results ! i \<noteq> None \<longrightarrow> hit c (keys ! i) \<Longrightarrow>
   readable c' = readable c \<and> length results' = length keys \<and>
   (\<forall>i<length keys. results' ! i \<noteq> None \<longrightarrow> hit c' (keys ! i))"
proof (induction ps arbitrary: c results)
  case Nil
  then show ?case by simp
next
  case (Cons p ps)
  obtain n r where p: "p = (n, r)" by (cases p)
  from Cons.prems(1) p obtain c1 where
    n: "n < length results" "n < length keys" and
    put: "cache_put c (keys ! n) (Some r, keys ! n) = Inr c1" and
    rest: "write_back c1 keys (results[n := Some r]) ps = (Inr results', c')"
    by (auto split: if_splits sum.splits)
  note ph = cache_put_hit[OF put]
  have len: "length (results[n := Some r]) = length keys" using Cons.prems(2) by simp
  have inv: "\<forall>i<length keys. (results[n := Some r]) ! i \<noteq> None \<longrightarrow> hit c1 (keys ! i)"
    using Cons.prems(2,3) ph n by (auto simp: nth_list_update)
  from Cons.IH[OF rest len inv] ph show ?case by simp
qed

subsection \<open>Whole calls\<close>

lemma wrapper_all_hits:
  assumes "\<not> disable_cache_of env kw"
    and "make_keys cfg (coerce_query query) (pop_disable_cache kw) = Inr keys"
    and "keys = [] \<or> readable c" and "list_all (hit c) keys"
  shows "wrapper func cfg env c query kw = (Inr (map (stored c) keys), c, [])"
  using assms
  by (simp add: wrapper_def Let_def lookup_all_hits' no_miss_zip finish_hits)

lemma wrapper_calls_le1: "length (snd (snd (wrapper func cfg env c query kw))) \<le> 1"
  by (auto simp: wrapper_def Let_def split: sum.splits prod.splits)

lemma wrapper_then_hits:
  assumes en: "\<not> disable_cache_of env kw"
    and run: "wrapper func cfg env c query kw = (Inr rs, c', calls)"
  shows "\<exists>keys. make_keys cfg (coerce_query query) (pop_disable_cache kw) = Inr keys \<and>
           (keys = [] \<or> readable c') \<and> list_all (hit c') keys \<and> length rs = length keys"
proof -
  from en run obtain keys results where
    mk: "make_keys cfg (coerce_query query) (pop_disable_cache kw) = Inr keys" and
    lk: "lookup_all c keys = Inr results"
    by (auto simp: wrapper_def Let_def split: sum.splits)
  note snd = lookup_all_sound[OF lk]
  let ?nq = "map fst (filter (\<lambda>qr. snd qr = None) (zip (coerce_query query) results))"
  let ?ni = "map fst (filter (\<lambda>nr. snd nr = None) (enumerate 0 results))"
  show ?thesis
  proof (cases "?nq = []")
    case True
    with en run mk lk have "finish results = Inr rs" "c' = c"
      by (auto simp: wrapper_def Let_def)
    with finish_all[of results rs] finish_length[of results rs] snd mk show ?thesis
      by (auto simp: list_all_length)
  next
    case False
    with en run mk lk obtain new_results results' where
      wb: "write_back c keys results (zip ?ni new_results) = (Inr results', c')" and
      fin: "finish results' = Inr rs"
      by (auto simp: wrapper_def Let_def split: sum.splits prod.splits)
    from write_back_inv[OF wb] snd have
      "readable c' = readable c" "length results' = length keys"
      "\<forall>i<length keys. results' ! i \<noteq> None \<longrightarrow> hit c' (keys ! i)" by auto
    with finish_all[OF fin] finish_length[OF fin] snd mk show ?thesis
      by (auto simp: list_all_length)
  qed
qed

lemma wrapper_twice:
  assumes "\<not> disable_cache_of env kw"
    and "wrapper func cfg env c query kw = (Inr rs, c', calls)"
  shows "\<exists>rs'. wrapper func' cfg env c' query kw = (Inr rs', c', [])"
  using wrapper_then_hits[OF assms] wrapper_all_hits[OF assms(1)] by blast

lemma wrapper_result_length:
  assumes "\<not> disable_cache_of env kw"
    and "wrapper func cfg env c query kw = (Inr rs, c', calls)"
  shows "length rs = length (coerce_query query)"
  using wrapper_then_hits[OF assms] by (auto dest: make_keys_length)

lemma wrapper_get_fails:
  assumes "\<not> disable_cache_of env kw"
    and "make_keys cfg (coerce_query query) (pop_disable_cache kw) = Inr keys"
    and "keys \<noteq> []" and "\<not> readable c"
  shows "wrapper func cfg env c query kw = (Inl CacheError, c, [])"
proof -
  from assms(3,4) have "lookup_all c keys = Inl CacheError"
    by (cases keys) (auto simp: get_first_def cache_get_def)
  with assms show ?thesis by (simp add: wrapper_def Let_def)
qed

lemma wrapper_put_fails:
  assumes en: "\<not> disable_cache_of env kw"
    and mk: "make_keys cfg (coerce_query query) (pop_disable_cache kw) = Inr keys"
    and lk: "lookup_all c keys = Inr results"
    and nq: "nq = map fst (filter (\<lambda>qr. snd qr = None) (zip (coerce_query query) results))"
    and ne: "nq \<noteq> []"
    and fn: "func nq (pop_disable_cache kw) = Inr new_results"
    and nr: "new_results \<noteq> []"
    and wr: "\<not> writable c"
  shows "wrapper func cfg env c query kw = (Inl CacheError, c, [(nq, pop_disable_cache kw)])"
proof -
  have len: "length results = length keys" using lookup_all_sound[OF lk] by simp
  have "None \<in> set results"
    using new_query_None[of "coerce_query query" results] ne nq by simp
  from new_indices_Cons[OF this] obtain n ns where
    ni: "map fst (filter (\<lambda>nr. snd nr = None) (enumerate 0 results)) = n # ns"
    and n: "n < length results" by auto
  from nr obtain r rs where r: "new_results = r # rs" by (cases new_results) auto
  have "write_back c keys results (zip (n # ns) new_results) = (Inl CacheError, c)"
    using r n len wr by (simp add: cache_put_def)
  with en mk lk nq ne fn ni show ?thesis
    by (simp add: wrapper_def Let_def)
qed

subsection \<open>The claims about the wrapper\<close>

text \<open>
  C1. Claimed: with caching enabled the wrapper returns the same per-query results as the
  call with caching disabled. On the code this fails at the first key the store does not
  hold: with an empty store and the batch \<open>["q"]\<close>, the lookup of line 58 subscripts the
  default \<open>None\<close> and the call raises \<open>TypeError\<close> without invoking the underlying search,
  while the same call with \<open>disable_cache=True\<close> returns the underlying result \<open>[1]\<close>.
\<close>

theorem cache_miss_raises_unlike_direct_search:
  "wrapper ex_func 0 None ex_empty_cache (QList [''q'']) []
     = (Inl TypeError, ex_empty_cache, [])
   \<and> wrapper ex_func 0 None ex_empty_cache (QList [''q'']) [(''disable_cache'', PBool True)]
     = (Inr [1], ex_empty_cache, [([''q''], [])])"
  by (simp add: wrapper_defs ex_defs)

text \<open>
  C3. Claimed: the wrapper returns one result per query in input order for any partition
  into hits and misses, and invokes the underlying search with the misses only. On the
  code a batch with a hit (\<open>a\<close>) and a miss (\<open>b\<close>) returns nothing: the miss raises
  \<open>TypeError\<close> at line 58 and the underlying search is not invoked at all.
\<close>

theorem partial_hit_batch_raises:
  "wrapper ex_func 0 None ex_warm_cache (QList [''a'', ''b'']) []
     = (Inl TypeError, ex_warm_cache, [])"
  by (simp add: wrapper_defs ex_defs)

text \<open>
  C4. If every query of the batch is a hit, the underlying search is never invoked, the
  stored results are returned and the store is unchanged. After any call that returned
  with caching enabled, the same call again never invokes the underlying search (so at
  most once), whatever that search would do; and no call invokes it more than once.
\<close>

theorem all_hits_never_invoke_underlying:
  "(\<not> disable_cache_of env kw
      \<and> make_keys cfg (coerce_query query) (pop_disable_cache kw) = Inr keys
      \<and> readable c \<and> list_all (hit c) keys
     \<longrightarrow> wrapper func cfg env c query kw = (Inr (map (stored c) keys), c, []))
   \<and> (\<not> disable_cache_of env kw \<and> wrapper func cfg env c query kw = (Inr rs, c', calls)
     \<longrightarrow> (\<exists>rs'. wrapper func' cfg env c' query kw = (Inr rs', c', [])))
   \<and> length (snd (snd (wrapper func cfg env c query kw))) \<le> 1"
  using wrapper_all_hits[of env kw cfg query keys c func]
    wrapper_twice[of env kw func cfg c query rs c' calls func']
    wrapper_calls_le1[of func cfg env c query kw]
  by blast

theorem all_hits_never_invoke_underlying_witness:
  "wrapper ex_func 0 None ex_warm_cache (QList [''a'']) [] = (Inr [7], ex_warm_cache, [])
   \<and> wrapper ex_func 0 None ex_none_cache (QList [''a'']) []
       = (Inr [1], ex_refilled_cache, [([''a''], [])])
   \<and> (\<exists>rs'. wrapper (\<lambda>qs kw. Inl BackendError) 0 None ex_refilled_cache (QList [''a'']) []
              = (Inr rs', ex_refilled_cache, []))"
proof -
  have first: "wrapper ex_func 0 None ex_none_cache (QList [''a'']) []
                 = (Inr [1], ex_refilled_cache, [([''a''], [])])"
    by (simp add: wrapper_defs ex_defs enumerate_eq_zip)
  have en: "\<not> disable_cache_of None ([] :: nat kwargs)"
    by (simp add: disable_cache_of_def)
  have mk: "make_keys (0::nat) (coerce_query (QList [''a''])) (pop_disable_cache [])
              = Inr [ex_key ''a'']"
    by (simp add: wrapper_defs ex_defs)
  have hits: "readable ex_warm_cache \<and> list_all (hit ex_warm_cache) [ex_key ''a'']"
    by (simp add: hit_def ex_defs)
  have st: "map (stored ex_warm_cache) [ex_key ''a''] = [7]"
    by (simp add: stored_def ex_defs)
  from all_hits_never_invoke_underlying
         [where env = None and kw = "[]" and cfg = "0::nat" and query = "QList [''a'']"
            and keys = "[ex_key ''a'']" and c = ex_warm_cache and func = ex_func]
       en mk hits st
  have one: "wrapper ex_func 0 None ex_warm_cache (QList [''a'']) []
               = (Inr [7], ex_warm_cache, [])"
    by simp
  from all_hits_never_invoke_underlying
         [where env = None and kw = "[]" and cfg = "0::nat" and query = "QList [''a'']"
            and c = ex_none_cache and func = ex_func and rs = "[1]"
            and c' = ex_refilled_cache and calls = "[([''a''], [])]"
            and func' = "\<lambda>qs kw. Inl BackendError"]
       en first
  have two: "\<exists>rs'. wrapper (\<lambda>qs kw. Inl BackendError) 0 None ex_refilled_cache
                      (QList [''a'']) [] = (Inr rs', ex_refilled_cache, [])"
    by blast
  from one first two show ?thesis by blast
qed

text \<open>
  C7, as claimed: when a cache get or put fails, the wrapper falls back to the underlying
  search and still returns one result per query. On the code it does not: with an
  unreachable store the call fails with the store's error and the underlying search,
  which would have answered \<open>[1]\<close>, is never invoked.
\<close>

theorem unreachable_store_fails_search:
  "wrapper ex_func 0 None ex_down_cache (QList [''q'']) [] = (Inl CacheError, ex_down_cache, [])
   \<and> ex_func [''q''] [] = Inr [1]"
  by (simp add: wrapper_defs ex_defs)

text \<open>
  C7, amended: with caching enabled, a failing cache get makes the call fail with that
  error before the underlying search is invoked; a failing cache put makes the call fail
  with that error after the underlying search was invoked once with the misses, whose
  results are lost. There is no fallback. Only with caching disabled is the underlying
  search invoked with the whole batch, and then the store is not touched.
\<close>

theorem cache_failure_propagates:
  "(\<not> disable_cache_of env kw
      \<and> make_keys cfg (coerce_query query) (pop_disable_cache kw) = Inr keys
      \<and> keys \<noteq> [] \<and> \<not> readable c
     \<longrightarrow> wrapper func cfg env c query kw = (Inl CacheError, c, []))
   \<and> (\<not> disable_cache_of env kw
      \<and> make_keys cfg (coerce_query query) (pop_disable_cache kw) = Inr keys
      \<and> lookup_all c keys = Inr results
      \<and> nq = map fst (filter (\<lambda>qr. snd qr = None) (zip (coerce_query query) results))
      \<and> nq \<noteq> [] \<and> func nq (pop_disable_cache kw) = Inr new_results \<and> new_results \<noteq> []
      \<and> \<not> writable c
     \<longrightarrow> wrapper func cfg env c query kw = (Inl CacheError, c, [(nq, pop_disable_cache kw)]))
   \<and> (disable_cache_of env kw
     \<longrightarrow> wrapper func cfg env c query kw
           = (func (coerce_query query) (pop_disable_cache kw), c,
              [(coerce_query query, pop_disable_cache kw)]))"
  using wrapper_get_fails[of env kw cfg query keys c func]
    wrapper_put_fails[of env kw cfg query keys c results nq func new_results]
    wrapper_disabled[of env kw func cfg c query]
  by blast

theorem cache_failure_propagates_witness:
  "wrapper ex_func 0 None ex_down_cache (QList [''q'']) [] = (Inl CacheError, ex_down_cache, [])
   \<and> wrapper ex_func 0 None ex_readonly_cache (QList [''a'']) []
       = (Inl CacheError, ex_readonly_cache, [([''a''], [])])
   \<and> wrapper ex_func 0 None ex_down_cache (QList [''q'']) [(''disable_cache'', PBool True)]
       = (Inr [1], ex_down_cache, [([''q''], [])])"
proof -
  have en: "\<not> disable_cache_of None ([] :: nat kwargs)"
    by (simp add: disable_cache_of_def)
  have dis: "disable_cache_of None [(''disable_cache'', PBool True :: nat pyval)]"
    by (simp add: disable_cache_of_def)
  have mkq: "make_keys (0::nat) (coerce_query (QList [''q''])) (pop_disable_cache [])
              = Inr [ex_key ''q''] \<and> [ex_key ''q''] \<noteq> [] \<and> \<not> readable ex_down_cache"
    by (simp add: wrapper_defs ex_defs)
  have mka: "make_keys (0::nat) (coerce_query (QList [''a''])) (pop_disable_cache [])
              = Inr [ex_key ''a'']"
    by (simp add: wrapper_defs ex_defs)
  have lk: "lookup_all ex_readonly_cache [ex_key ''a''] = Inr [None]"
    by (simp add: wrapper_defs ex_defs)
  have nq: "[''a''] = map fst (filter (\<lambda>qr. snd qr = None)
              (zip (coerce_query (QList [''a''])) [None :: nat option]))
            \<and> [''a''] \<noteq> ([] :: string list)
            \<and> ex_func [''a''] (pop_disable_cache []) = Inr [1] \<and> [1::nat] \<noteq> []
            \<and> \<not> writable ex_readonly_cache"
    by (simp add: wrapper_defs ex_defs)
  from cache_failure_propagates
         [where env = None and kw = "[]" and cfg = "0::nat" and query = "QList [''q'']"
            and keys = "[ex_key ''q'']" and c = ex_down_cache and func = ex_func]
       en mkq
  have one: "wrapper ex_func 0 None ex_down_cache (QList [''q'']) []
               = (Inl CacheError, ex_down_cache, [])"
    by blast
  from cache_failure_propagates
         [where env = None and kw = "[]" and cfg = "0::nat" and query = "QList [''a'']"
            and keys = "[ex_key ''a'']" and c = ex_readonly_cache and func = ex_func
            and results = "[None]" and nq = "[''a'']" and new_results = "[1]"]
       en mka lk nq
  have two: "wrapper ex_func 0 None ex_readonly_cache (QList [''a'']) []
               = (Inl CacheError, ex_readonly_cache, [([''a''], pop_disable_cache [])])"
    by blast
  from cache_failure_propagates
         [where env = None and kw = "[(''disable_cache'', PBool True)]" and cfg = "0::nat"
            and query = "QList [''q'']" and c = ex_down_cache and func = ex_func]
       dis
  have three: "wrapper ex_func 0 None ex_down_cache (QList [''q''])
                 [(''disable_cache'', PBool True)]
               = (ex_func (coerce_query (QList [''q'']))
                    (pop_disable_cache [(''disable_cache'', PBool True)]), ex_down_cache,
                  [(coerce_query (QList [''q'']),
                    pop_disable_cache [(''disable_cache'', PBool True)])])"
    by blast
  from one two three show ?thesis
    by (simp add: coerce_query_def pop_disable_cache_def ex_func_def)
qed




lemma chunks_single: "0 < n \<Longrightarrow> chunks n [x] = [[x]]"
  by (simp add: chunks.simps[of n "[x]"] chunks.simps[of n "[]"])

text \<open>
  The coercion itself: a single string is the one-element batch, for the wrapper and for
  \<open>LocalRetriever.search\<close>. With a positive batch size \<open>LocalRetriever.search\<close> hands the
  one (preprocessed) query to \<open>search_batch\<close> and returns its answer; with caching
  disabled the wrapper returns the answer of the wrapped search; with caching enabled a
  hit returns the one stored result, and a call that returns gives exactly one result.
\<close>

lemma single_string_coerced:
  "wrapper func cfg env c (QStr s) kw = wrapper func cfg env c (QList [s]) kw
   \<and> (disable_cache_of env kw
     \<longrightarrow> wrapper func cfg env c (QStr s) kw
           = (func [s] (pop_disable_cache kw), c, [([s], pop_disable_cache kw)]))
   \<and> (\<not> disable_cache_of env kw \<and> ''cfg'' \<notin> fst ` set (pop_disable_cache kw) \<and> readable c
        \<and> hit c (hashkey ((''cfg'', PCfg cfg) # (''query'', PStr s) # pop_disable_cache kw))
     \<longrightarrow> wrapper func cfg env c (QStr s) kw
           = (Inr [stored c (hashkey ((''cfg'', PCfg cfg) # (''query'', PStr s)
                                       # pop_disable_cache kw))], c, []))
   \<and> (\<not> disable_cache_of env kw \<and> wrapper func cfg env c (QStr s) kw = (Inr rs, c', calls)
     \<longrightarrow> length rs = 1)
   \<and> local_search pipeline batch_size search_batch (QStr s) kw
       = local_search pipeline batch_size search_batch (QList [s]) kw
   \<and> local_search pipeline batch_size search_batch (QStr s) kw
       = (if batch_size = 0 then Inl ValueError
          else if batch_size < 0 then Inr []
          else search_batch
                 [if (case map_of kw ''no_preprocess'' of Some v \<Rightarrow> truthy v | None \<Rightarrow> False)
                  then s else pipeline s]
                 (filter (\<lambda>kv. fst kv \<noteq> ''no_preprocess'') kw))"
proof -
  have a: "wrapper func cfg env c (QStr s) kw = wrapper func cfg env c (QList [s]) kw"
    by (simp add: wrapper_def coerce_query_def)
  have b: "disable_cache_of env kw
     \<longrightarrow> wrapper func cfg env c (QStr s) kw
           = (func [s] (pop_disable_cache kw), c, [([s], pop_disable_cache kw)])"
    using wrapper_disabled[of env kw func cfg c "QStr s"] by (simp add: coerce_query_def)
  have c: "\<not> disable_cache_of env kw \<and> ''cfg'' \<notin> fst ` set (pop_disable_cache kw) \<and> readable c
        \<and> hit c (hashkey ((''cfg'', PCfg cfg) # (''query'', PStr s) # pop_disable_cache kw))
     \<longrightarrow> wrapper func cfg env c (QStr s) kw
           = (Inr [stored c (hashkey ((''cfg'', PCfg cfg) # (''query'', PStr s)
                                       # pop_disable_cache kw))], c, [])"
    using wrapper_all_hits[of env kw cfg "QStr s"
            "[hashkey ((''cfg'', PCfg cfg) # (''query'', PStr s) # pop_disable_cache kw)]" c func]
    by (simp add: make_keys_def coerce_query_def)
  have d: "\<not> disable_cache_of env kw \<and> wrapper func cfg env c (QStr s) kw = (Inr rs, c', calls)
     \<longrightarrow> length rs = 1"
    using wrapper_result_length[of env kw func cfg c "QStr s" rs c' calls]
    by (simp add: coerce_query_def)
  have e: "local_search pipeline batch_size search_batch (QStr s) kw
       = local_search pipeline batch_size search_batch (QList [s]) kw"
    by (simp add: local_search_def coerce_query_def)
  have f: "local_search pipeline batch_size search_batch (QStr s) kw
       = (if batch_size = 0 then Inl ValueError
          else if batch_size < 0 then Inr []
          else search_batch
                 [if (case map_of kw ''no_preprocess'' of Some v \<Rightarrow> truthy v | None \<Rightarrow> False)
                  then s else pipeline s]
                 (filter (\<lambda>kv. fst kv \<noteq> ''no_preprocess'') kw))"
    by (auto simp: local_search_def coerce_query_def Let_def chunks_single split: sum.splits)
  show ?thesis by (rule conjI[OF a conjI[OF b conjI[OF c conjI[OF d conjI[OF e f]]]]])
qed

text \<open>
  C10. Claimed: called with a single string the cached search behaves as with the
  one-element list holding that string and returns a one-element result list. On the
  code the coercion is done (both calls are one and the same), but for a query the
  store does not hold the call returns no list at all: with the empty store and the
  string \<open>q\<close> the lookup of line 58 raises \<open>TypeError\<close>, as the call with \<open>["q"]\<close> does,
  although the underlying search answers \<open>["q"]\<close> with the one-element list \<open>[1]\<close>.
\<close>

theorem single_string_on_cold_store_raises:
  "wrapper ex_func 0 None ex_empty_cache (QStr ''q'') [] = (Inl TypeError, ex_empty_cache, [])
   \<and> wrapper ex_func 0 None ex_empty_cache (QList [''q'']) [] = (Inl TypeError, ex_empty_cache, [])
   \<and> ex_func [''q''] [] = Inr [1]"
  by (simp add: wrapper_defs ex_defs)

section \<open>Properties of the searcher\<close>

subsection \<open>The loop of the code is the loop of the specification\<close>

lemma nth_all_ok:
  "\<forall>r\<in>set H. idx < length r \<Longrightarrow> nth_all idx H = Inr (map (\<lambda>r. r ! idx) H)"
  by (induction H) auto

lemma append_record_last:
  "append_record (length H) rec (H @ [partial]) = Inr (H @ [partial @ [rec]])"
  by (simp add: append_record_def)

lemma set_summarized_last:
  "set_summarized (length H) s (H @ [partial @ [rec]])
     = Inr (H @ [partial @ [rec\<lparr>rr_summarized := Some s\<rparr>]])"
  by (simp add: set_summarized_def)

lemma retriever_step_spec:
  assumes "\<forall>r\<in>set H. idx < length r"
    and "failed = map (\<lambda>r. rr_query (r ! idx)) H"
  shows "retriever_step self col query (length H) idx R (contexts, H @ [partial]) tr =
     (case run_retriever_spec self col query R failed tr of
        (Inl e, tr') \<Rightarrow> (Inl e, tr')
      | (Inr (rec, cs), tr') \<Rightarrow> (Inr (contexts @ cs, H @ [partial @ [rec]]), tr'))"
  using assms
  by (auto simp: retriever_step_def run_retriever_spec_def rewrite_query_def nth_all_ok
        append_record_last set_summarized_last comp_def Let_def
      split: sum.splits prod.splits)

lemma run_round_spec_length:
  "run_round_spec self col query pairs tr = (Inr (recs, cs), tr') \<Longrightarrow>
   length recs = length pairs"
  by (induction pairs arbitrary: recs cs tr tr') (auto split: sum.splits prod.splits)

lemma run_retrievers_spec:
  assumes "\<forall>r\<in>set H. idx + length rest \<le> length r"
    and "length fs = length rest"
    and "\<forall>j<length rest. fs ! j = map (\<lambda>r. rr_query (r ! (idx + j))) H"
  shows "run_retrievers self col query (length H) idx rest (contexts, H @ [partial]) tr =
     (case run_round_spec self col query (zip rest fs) tr of
        (Inl e, tr') \<Rightarrow> (Inl e, tr')
      | (Inr (recs, cs), tr') \<Rightarrow> (Inr (contexts @ cs, H @ [partial @ recs]), tr'))"
  using assms
proof (induction rest arbitrary: idx fs contexts partial tr)
  case Nil
  then show ?case by simp
next
  case (Cons R rest)
  from Cons.prems(2) obtain f fs' where fs: "fs = f # fs'" "length fs' = length rest"
    by (cases fs) auto
  have idx: "\<forall>r\<in>set H. idx < length r" using Cons.prems(1) by auto
  have f: "f = map (\<lambda>r. rr_query (r ! idx)) H" using Cons.prems(3) fs by auto
  have step: "retriever_step self col query (length H) idx R (contexts, H @ [partial]) tr =
     (case run_retriever_spec self col query R f tr of
        (Inl e, tr') \<Rightarrow> (Inl e, tr')
      | (Inr (rec, cs), tr') \<Rightarrow> (Inr (contexts @ cs, H @ [partial @ [rec]]), tr'))"
    by (rule retriever_step_spec[OF idx f])
  have p1: "\<forall>r\<in>set H. Suc idx + length rest \<le> length r" using Cons.prems(1) by auto
  have p3: "\<forall>j<length rest. fs' ! j = map (\<lambda>r. rr_query (r ! (Suc idx + j))) H"
    using Cons.prems(3) fs by auto
  note ih = Cons.IH[OF p1 fs(2) p3]
  show ?case
    by (simp add: step fs ih split: sum.splits prod.splits)
qed

lemma failed_step:
  assumes "\<forall>r\<in>set H. length r = n" and "length recs = n"
  shows "map (\<lambda>fr. fst fr @ [rr_query (snd fr)])
           (zip (map (\<lambda>i. map (\<lambda>r. rr_query (r ! i)) H) [0..<n]) recs)
         = map (\<lambda>i. map (\<lambda>r. rr_query (r ! i)) (H @ [recs])) [0..<n]"
  using assms by (auto intro!: nth_equalityI)

lemma search_loop_spec:
  assumes "\<forall>r\<in>set H. length r = length (retrievers self)"
    and "failed = map (\<lambda>i. map (\<lambda>r. rr_query (r ! i)) H) [0..<length (retrievers self)]"
  shows "search_loop self col query mx (length H) (c0, H) tr
         = retry_loop_spec self col query mx (length H) failed (c0, H) tr"
  using assms
proof (induction "mx - length H" arbitrary: H c0 tr failed)
  case 0
  then show ?case
    by (simp add: search_loop.simps[of _ _ _ mx] retry_loop_spec.simps[of _ _ _ mx])
next
  case (Suc k)
  let ?n = "length (retrievers self)"
  from Suc.hyps(2) have lt: "length H < mx" by simp
  have round: "run_retrievers self col query (length H) 0 (retrievers self) ([], H @ [[]]) tr =
     (case run_round_spec self col query (zip (retrievers self) failed) tr of
        (Inl e, tr') \<Rightarrow> (Inl e, tr')
      | (Inr (recs, cs), tr') \<Rightarrow> (Inr ([] @ cs, H @ [[] @ recs]), tr'))"
    by (rule run_retrievers_spec) (use Suc.prems in auto)
  show ?case
  proof (cases "run_round_spec self col query (zip (retrievers self) failed) tr")
    case (Pair res tr1)
    show ?thesis
    proof (cases res)
      case (Inl e)
      with Pair lt round show ?thesis
        by (simp add: search_loop.simps[of _ _ _ mx "length H"]
              retry_loop_spec.simps[of _ _ _ mx "length H"])
    next
      case (Inr rc)
      obtain recs cs where rc: "rc = (recs, cs)" by (cases rc)
      have len: "length recs = ?n"
        using run_round_spec_length[of self col query "zip (retrievers self) failed" tr recs cs tr1]
          Pair Inr rc Suc.prems(2) by simp
      have k: "k = mx - length (H @ [recs])" using Suc.hyps(2) by simp
      have inv: "\<forall>r\<in>set (H @ [recs]). length r = ?n" using Suc.prems(1) len by auto
      have f': "map (\<lambda>fr. fst fr @ [rr_query (snd fr)]) (zip failed recs)
                = map (\<lambda>i. map (\<lambda>r. rr_query (r ! i)) (H @ [recs])) [0..<?n]"
        unfolding Suc.prems(2) by (rule failed_step) (use Suc.prems(1) len in auto)
      have ih: "\<And>c tr'. search_loop self col query mx (Suc (length H)) (c, H @ [recs]) tr'
            = retry_loop_spec self col query mx (Suc (length H))
                (map (\<lambda>fr. fst fr @ [rr_query (snd fr)]) (zip failed recs)) (c, H @ [recs]) tr'"
        using Suc.hyps(1)[OF k inv f'] by simp
      from Pair Inr rc lt round ih show ?thesis
        by (simp add: search_loop.simps[of _ _ _ mx "length H"]
              retry_loop_spec.simps[of _ _ _ mx "length H"]
            split: sum.splits prod.splits)
    qed
  qed
qed

lemma inner_search_refines: "inner_search self col query tr = inner_search_spec self col query tr"
  using search_loop_spec[of "[]" self "replicate (length (retrievers self)) []" col query _ "[]" tr]
  by (simp add: inner_search_def inner_search_spec_def map_replicate_const)

lemma search_calls_simps [simp]:
  "search_calls [] = 0"
  "search_calls (tr @ [Chat ps r]) = search_calls tr"
  "search_calls (tr @ [Search R qs k d g]) = Suc (search_calls tr)"
  by (simp_all add: search_calls_def)

lemma build_contexts_ok:
  assumes "map_of g ''texts'' \<noteq> None"
    and "map_of g ''indices'' \<noteq> None \<or> map_of g ''urls'' \<noteq> None"
  shows "\<exists>ctxs. build_contexts R q g = Inr ctxs"
  using assms by (auto simp: build_contexts_def split: option.splits)

lemma rewrite_with_ok:
  assumes wb: "well_behaved self col" and p: "map_of (rewrite_prompts self) R \<noteq> None"
  shows "\<exists>q tr'. rewrite_with self col query R failed tr = (Inr q, tr')
           \<and> search_calls tr' = search_calls tr"
proof -
  from p obtain pr where pr: "map_of (rewrite_prompts self) R = Some pr" by auto
  let ?ps = "[pr @ [(''user'', rewrite_user_prompt query failed)]]"
  from wb obtain rs where rs: "chat col tr ?ps = Inr rs" "length rs = length ?ps"
    unfolding well_behaved_def by blast
  then obtain r where "rs = [r]" by (cases rs) auto
  with pr rs show ?thesis
    by (simp add: rewrite_with_def call_chat_def first_def Let_def)
qed

lemma summarize_contexts_ok:
  assumes wb: "well_behaved self col"
  shows "\<exists>s tr'. summarize_contexts self col ctxs query tr = (Inr s, tr')
           \<and> search_calls tr' = search_calls tr"
proof -
  let ?ps = "summary_prompts self ctxs query"
  from wb obtain rs where rs: "chat col tr ?ps = Inr rs"
    unfolding well_behaved_def by blast
  then show ?thesis
    by (simp add: summarize_contexts_def call_chat_def Let_def)
qed

lemma run_retriever_spec_ok:
  assumes wb: "well_behaved self col"
    and p: "rewrite self \<longrightarrow> map_of (rewrite_prompts self) R \<noteq> None"
  shows "\<exists>rec tr'. run_retriever_spec self col query R failed tr
             = (Inr (rec, record_contexts rec), tr')
           \<and> rr_retriever rec = R \<and> search_calls tr' = Suc (search_calls tr)"
proof -
  obtain q tr1 where q:
    "(if rewrite self then rewrite_with self col query R failed tr else (Inr query, tr))
       = (Inr q, tr1)" "search_calls tr1 = search_calls tr"
    using rewrite_with_ok[OF wb, of R query failed tr] p by (cases "rewrite self") auto
  from wb obtain g gs where g:
    "search col tr1 R [q] (retriever_top_k self) (disable_cache self) = Inr (g # gs)"
    "map_of g ''texts'' \<noteq> None" "map_of g ''indices'' \<noteq> None \<or> map_of g ''urls'' \<noteq> None"
    unfolding well_behaved_def by blast
  from build_contexts_ok[OF g(2,3)] obtain ctxs where c: "build_contexts R q g = Inr ctxs"
    by blast
  show ?thesis
  proof (cases "summary_context self")
    case True
    from summarize_contexts_ok[OF wb, of ctxs query
        "tr1 @ [Search R [q] (retriever_top_k self) (disable_cache self) (Inr (g # gs))]"]
    obtain s tr3 where s:
      "summarize_contexts self col ctxs query
         (tr1 @ [Search R [q] (retriever_top_k self) (disable_cache self) (Inr (g # gs))])
         = (Inr s, tr3)"
      "search_calls tr3 = Suc (search_calls tr1)" by auto
    with True q g c show ?thesis
      by (simp add: run_retriever_spec_def call_search_def first_def record_contexts_def Let_def)
  next
    case False
    with q g c show ?thesis
      by (simp add: run_retriever_spec_def call_search_def first_def record_contexts_def Let_def)
  qed
qed

lemma run_round_spec_ok:
  assumes wb: "well_behaved self col"
    and p: "rewrite self \<longrightarrow> (\<forall>R\<in>set (map fst pairs). map_of (rewrite_prompts self) R \<noteq> None)"
  shows "\<exists>recs tr'. run_round_spec self col query pairs tr
             = (Inr (recs, round_contexts recs), tr')
           \<and> map rr_retriever recs = map fst pairs
           \<and> search_calls tr' = search_calls tr + length pairs"
  using p
proof (induction pairs arbitrary: tr)
  case Nil
  then show ?case by (simp add: round_contexts_def)
next
  case (Cons rf pairs)
  have p1: "rewrite self \<longrightarrow> map_of (rewrite_prompts self) (fst rf) \<noteq> None"
    using Cons.prems by simp
  from run_retriever_spec_ok[OF wb p1, of query "snd rf" tr] obtain rec tr1 where r:
    "run_retriever_spec self col query (fst rf) (snd rf) tr
       = (Inr (rec, record_contexts rec), tr1)"
    "rr_retriever rec = fst rf" "search_calls tr1 = Suc (search_calls tr)" by blast
  have p2: "rewrite self \<longrightarrow> (\<forall>R\<in>set (map fst pairs). map_of (rewrite_prompts self) R \<noteq> None)"
    using Cons.prems by simp
  from Cons.IH[OF p2, of tr1] obtain recs tr2 where rs:
    "run_round_spec self col query pairs tr1 = (Inr (recs, round_contexts recs), tr2)"
    "map rr_retriever recs = map fst pairs"
    "search_calls tr2 = search_calls tr1 + length pairs" by blast
  from r rs show ?case
    by (simp add: round_contexts_def)
qed

lemma verify_contexts_rejects:
  assumes wb: "well_behaved self col" and v: "verify self"
    and rej: "always_rejects self col query"
  shows "\<exists>tr'. verify_contexts self col cs query tr = (Inr False, tr')
           \<and> search_calls tr' = search_calls tr"
proof -
  let ?ps = "[verify_prompt self @ [(''user'', verify_user_prompt cs query)]]"
  from wb obtain rs where rs: "chat col tr ?ps = Inr rs" "length rs = length ?ps"
    unfolding well_behaved_def by blast
  then obtain r where r: "rs = [r]" by (cases rs) auto
  with rej rs have "\<not> sublist ''yes'' (lower r)"
    unfolding always_rejects_def by blast
  with v rs r show ?thesis
    by (simp add: verify_contexts_def call_chat_def first_def Let_def)
qed

lemma verify_contexts_off:
  "\<not> verify self \<Longrightarrow> verify_contexts self col cs query tr = (Inr True, tr)"
  by (simp add: verify_contexts_def)

lemma retry_loop_rejects:
  assumes wb: "well_behaved self col" and v: "verify self"
    and rej: "always_rejects self col query"
  shows "length failed = length (retrievers self) \<Longrightarrow>
         \<exists>rounds ctxs tr'.
           retry_loop_spec self col query mx turn failed (c0, H) tr = (Inr (ctxs, H @ rounds), tr')
         \<and> length rounds = mx - turn
         \<and> ctxs = (if turn < mx then round_contexts (last rounds) else c0)
         \<and> (\<forall>r\<in>set rounds. map rr_retriever r = retrievers self)
         \<and> search_calls tr' = search_calls tr + (mx - turn) * length (retrievers self)"
proof (induction "mx - turn" arbitrary: turn failed c0 H tr)
  case 0
  then show ?case by (simp add: retry_loop_spec.simps[of _ _ _ mx])
next
  case (Suc k)
  let ?n = "length (retrievers self)"
  let ?pairs = "zip (retrievers self) failed"
  from Suc.hyps(2) have lt: "turn < mx" by simp
  have fstp: "map fst ?pairs = retrievers self" using Suc.prems by simp
  have p: "rewrite self \<longrightarrow> (\<forall>R\<in>set (map fst ?pairs). map_of (rewrite_prompts self) R \<noteq> None)"
    using wb fstp unfolding well_behaved_def by simp
  from run_round_spec_ok[OF wb p, of query tr] fstp Suc.prems obtain recs tr1 where r:
    "run_round_spec self col query ?pairs tr = (Inr (recs, round_contexts recs), tr1)"
    "map rr_retriever recs = retrievers self"
    "search_calls tr1 = search_calls tr + ?n" by auto
  from verify_contexts_rejects[OF wb v rej, of "round_contexts recs" tr1] obtain tr2 where vf:
    "verify_contexts self col (round_contexts recs) query tr1 = (Inr False, tr2)"
    "search_calls tr2 = search_calls tr1" by blast
  let ?failed' = "map (\<lambda>fr. fst fr @ [rr_query (snd fr)]) (zip failed recs)"
  have lenr: "length recs = ?n" using r(2) by (metis length_map)
  have lf: "length ?failed' = ?n" using Suc.prems lenr by simp
  have k: "k = mx - Suc turn" using Suc.hyps(2) by simp
  from Suc.hyps(1)[OF k lf, of "round_contexts recs" "H @ [recs]" tr2]
  obtain rounds ctxs tr' where ih:
    "retry_loop_spec self col query mx (Suc turn) ?failed' (round_contexts recs, H @ [recs]) tr2
       = (Inr (ctxs, (H @ [recs]) @ rounds), tr')"
    "length rounds = mx - Suc turn"
    "ctxs = (if Suc turn < mx then round_contexts (last rounds) else round_contexts recs)"
    "\<forall>r\<in>set rounds. map rr_retriever r = retrievers self"
    "search_calls tr' = search_calls tr2 + (mx - Suc turn) * ?n" by blast
  have run: "retry_loop_spec self col query mx turn failed (c0, H) tr
               = (Inr (ctxs, H @ (recs # rounds)), tr')"
    using lt r(1) vf(1) ih(1) by (simp add: retry_loop_spec.simps[of _ _ _ mx turn])
  have last: "ctxs = round_contexts (last (recs # rounds))"
    using ih(2,3) by (cases rounds) auto
  have d: "mx - turn = Suc (mx - Suc turn)" using lt by simp
  have m: "(mx - turn) * ?n = ?n + (mx - Suc turn) * ?n" by (simp only: d mult_Suc)
  have cnt: "search_calls tr' = search_calls tr + (mx - turn) * ?n"
    using ih(5) vf(2) r(3) by (simp add: m)
  have len: "length (recs # rounds) = mx - turn" using ih(2) lt by simp
  have all: "\<forall>r\<in>set (recs # rounds). map rr_retriever r = retrievers self"
    using ih(4) r(2) by simp
  from run last cnt len all lt show ?case by (intro exI[of _ "recs # rounds"]) auto
qed

lemma retry_loop_no_verify:
  assumes wb: "well_behaved self col" and v: "\<not> verify self"
    and lf: "length failed = length (retrievers self)" and lt: "turn < mx"
  shows "\<exists>recs tr'.
           retry_loop_spec self col query mx turn failed (c0, H) tr
             = (Inr (round_contexts recs, H @ [recs]), tr')
         \<and> map rr_retriever recs = retrievers self
         \<and> search_calls tr' = search_calls tr + length (retrievers self)"
proof -
  let ?pairs = "zip (retrievers self) failed"
  have fstp: "map fst ?pairs = retrievers self" using lf by simp
  have p: "rewrite self \<longrightarrow> (\<forall>R\<in>set (map fst ?pairs). map_of (rewrite_prompts self) R \<noteq> None)"
    using wb fstp unfolding well_behaved_def by simp
  from run_round_spec_ok[OF wb p, of query tr] fstp lf obtain recs tr1 where r:
    "run_round_spec self col query ?pairs tr = (Inr (recs, round_contexts recs), tr1)"
    "map rr_retriever recs = retrievers self"
    "search_calls tr1 = search_calls tr + length (retrievers self)" by auto
  with lt v show ?thesis
    by (simp add: retry_loop_spec.simps[of _ _ _ mx turn] verify_contexts_off)
qed

lemma rewrite_with_calls:
  "search_calls (snd (rewrite_with self col query R failed tr)) = search_calls tr"
  by (simp add: rewrite_with_def call_chat_def Let_def split: option.splits)

lemma summarize_contexts_calls:
  "search_calls (snd (summarize_contexts self col ctxs query tr)) = search_calls tr"
  by (simp add: summarize_contexts_def call_chat_def Let_def split: sum.splits)

lemma verify_contexts_calls:
  "search_calls (snd (verify_contexts self col ctxs query tr)) = search_calls tr"
  by (simp add: verify_contexts_def call_chat_def Let_def split: sum.splits)

lemma run_retriever_spec_calls:
  "search_calls (snd (run_retriever_spec self col query R failed tr)) \<le> Suc (search_calls tr)"
proof -
  have a: "\<And>q tr1. rewrite_with self col query R failed tr = (q, tr1) \<Longrightarrow>
             search_calls tr1 = search_calls tr"
    using rewrite_with_calls[of self col query R failed tr] by simp
  have b: "\<And>ctxs tr2 s tr3. summarize_contexts self col ctxs query tr2 = (s, tr3) \<Longrightarrow>
             search_calls tr3 = search_calls tr2"
    using summarize_contexts_calls[of self col _ query] by (metis snd_conv)
  show ?thesis
    by (auto simp: run_retriever_spec_def call_search_def Let_def
          split: sum.splits prod.splits if_splits dest!: a b)
qed

lemma run_round_spec_calls:
  "search_calls (snd (run_round_spec self col query pairs tr)) \<le> search_calls tr + length pairs"
proof (induction pairs arbitrary: tr)
  case Nil
  then show ?case by simp
next
  case (Cons rf pairs)
  obtain res tr1 where r: "run_retriever_spec self col query (fst rf) (snd rf) tr = (res, tr1)"
    by (cases "run_retriever_spec self col query (fst rf) (snd rf) tr")
  with run_retriever_spec_calls[of self col query "fst rf" "snd rf" tr]
  have c1: "search_calls tr1 \<le> Suc (search_calls tr)" by simp
  from Cons.IH[of tr1] have c2:
    "search_calls (snd (run_round_spec self col query pairs tr1)) \<le> search_calls tr1 + length pairs" .
  from r c1 c2 show ?case
    by (auto split: sum.splits prod.splits)
qed

lemma retry_loop_calls:
  "search_calls (snd (retry_loop_spec self col query mx turn failed st tr))
     \<le> search_calls tr + (mx - turn) * length (retrievers self)"
proof (induction "mx - turn" arbitrary: turn failed st tr)
  case 0
  then show ?case by (simp add: retry_loop_spec.simps[of _ _ _ mx])
next
  case (Suc k)
  let ?n = "length (retrievers self)"
  let ?pairs = "zip (retrievers self) failed"
  from Suc.hyps(2) have lt: "turn < mx" by simp
  have k: "k = mx - Suc turn" using Suc.hyps(2) by simp
  obtain res tr1 where r: "run_round_spec self col query ?pairs tr = (res, tr1)"
    by (cases "run_round_spec self col query ?pairs tr")
  with run_round_spec_calls[of self col query ?pairs tr]
  have c1: "search_calls tr1 \<le> search_calls tr + ?n" by simp
  have d: "mx - turn = Suc (mx - Suc turn)" using lt by simp
  have m: "(mx - turn) * ?n = ?n + (mx - Suc turn) * ?n" by (simp only: d mult_Suc)
  show ?case
  proof (cases res)
    case (Inl e)
    with r lt c1 m show ?thesis by (simp add: retry_loop_spec.simps[of _ _ _ mx turn])
  next
    case (Inr rc)
    obtain recs ctxs where rc: "rc = (recs, ctxs)" by (cases rc)
    obtain vr tr2 where vf: "verify_contexts self col ctxs query tr1 = (vr, tr2)"
      by (cases "verify_contexts self col ctxs query tr1")
    with verify_contexts_calls[of self col ctxs query tr1]
    have c2: "search_calls tr2 = search_calls tr1" by simp
    note ih = Suc.hyps(1)[OF k, of "map (\<lambda>fr. fst fr @ [rr_query (snd fr)]) (zip failed recs)"
                "(ctxs, snd st @ [recs])" tr2]
    from r Inr rc vf lt c1 c2 m ih show ?thesis
      by (auto simp: retry_loop_spec.simps[of _ _ _ mx turn] split: sum.splits)
  qed
qed

lemma run_retriever_spec_name:
  "run_retriever_spec self col query R failed tr = (Inr (rec, cs), tr') \<Longrightarrow>
   rr_retriever rec = R \<and> cs = record_contexts rec"
  by (auto simp: run_retriever_spec_def record_contexts_def Let_def
        split: sum.splits prod.splits if_splits)

lemma run_round_spec_names:
  "run_round_spec self col query pairs tr = (Inr (recs, cs), tr') \<Longrightarrow>
   map rr_retriever recs = map fst pairs \<and> cs = round_contexts recs"
proof (induction pairs arbitrary: recs cs tr tr')
  case Nil
  then show ?case by (simp add: round_contexts_def)
next
  case (Cons rf pairs)
  from Cons.prems obtain rec c1 tr1 recs' cs' where
    a: "run_retriever_spec self col query (fst rf) (snd rf) tr = (Inr (rec, c1), tr1)" and
    b: "run_round_spec self col query pairs tr1 = (Inr (recs', cs'), tr')" and
    c: "recs = rec # recs'" "cs = c1 @ cs'"
    by (auto split: sum.splits prod.splits)
  from run_retriever_spec_name[OF a] Cons.IH[OF b] c show ?case
    by (simp add: round_contexts_def)
qed

lemma retry_loop_spec_history:
  "retry_loop_spec self col query mx turn failed (c0, H) tr = (Inr (ctxs, hist), tr') \<Longrightarrow>
   length failed = length (retrievers self) \<Longrightarrow>
   \<forall>r\<in>set H. map rr_retriever r = retrievers self \<Longrightarrow>
   \<forall>r\<in>set hist. map rr_retriever r = retrievers self"
proof (induction "mx - turn" arbitrary: turn failed c0 H tr)
  case 0
  then show ?case by (simp add: retry_loop_spec.simps[of _ _ _ mx])
next
  case (Suc k)
  let ?pairs = "zip (retrievers self) failed"
  from Suc.hyps(2) have lt: "turn < mx" and k: "k = mx - Suc turn" by simp_all
  from Suc.prems(1) lt obtain recs cs tr1 where
    r: "run_round_spec self col query ?pairs tr = (Inr (recs, cs), tr1)"
    by (auto simp: retry_loop_spec.simps[of _ _ _ mx turn] split: sum.splits prod.splits)
  from run_round_spec_names[OF r] Suc.prems(2)
  have names: "map rr_retriever recs = retrievers self" by simp
  then have lenr: "length recs = length (retrievers self)" by (metis length_map)
  from Suc.prems(1) lt r obtain pass tr2 where
    v: "verify_contexts self col cs query tr1 = (Inr pass, tr2)"
    by (auto simp: retry_loop_spec.simps[of _ _ _ mx turn] split: sum.splits prod.splits)
  have inv: "\<forall>r\<in>set (H @ [recs]). map rr_retriever r = retrievers self"
    using Suc.prems(3) names by simp
  show ?case
  proof (cases pass)
    case True
    with Suc.prems(1) lt r v have "hist = H @ [recs]"
      by (simp add: retry_loop_spec.simps[of _ _ _ mx turn])
    with inv show ?thesis by simp
  next
    case False
    let ?failed' = "map (\<lambda>fr. fst fr @ [rr_query (snd fr)]) (zip failed recs)"
    from False Suc.prems(1) lt r v have
      "retry_loop_spec self col query mx (Suc turn) ?failed' (cs, H @ [recs]) tr2
         = (Inr (ctxs, hist), tr')"
      by (simp add: retry_loop_spec.simps[of _ _ _ mx turn])
    moreover have "length ?failed' = length (retrievers self)"
      using Suc.prems(2) lenr by simp
    ultimately show ?thesis using Suc.hyps(1)[OF k _ _ inv] by blast
  qed
qed

lemma inner_search_history:
  "inner_search self col query tr = (Inr (ctxs, hist), tr') \<Longrightarrow>
   \<forall>r\<in>set hist. map rr_retriever r = retrievers self"
  using retry_loop_spec_history[of self col query _ 0
          "replicate (length (retrievers self)) []" "[]" "[]" tr ctxs hist tr']
  by (simp add: inner_search_refines inner_search_spec_def)

lemma filter_distinct_nth:
  "distinct (map f xs) \<Longrightarrow> i < length xs \<Longrightarrow> filter (\<lambda>x. f x = f (xs ! i)) xs = [xs ! i]"
proof (induction xs arbitrary: i)
  case Nil
  then show ?case by simp
next
  case (Cons x xs)
  show ?case
  proof (cases i)
    case 0
    have "f x \<notin> f ` set xs" using Cons.prems(1) by simp
    then have "\<forall>y\<in>set xs. f y \<noteq> f x" by (metis imageI)
    then have "filter (\<lambda>y. f y = f x) xs = []"
      by (simp add: filter_empty_conv)
    with 0 show ?thesis by simp
  next
    case (Suc j)
    with Cons.prems have j: "j < length xs" and d: "distinct (map f xs)" by auto
    have "f x \<noteq> f (xs ! j)" using Cons.prems(1) j by auto
    with Suc Cons.IH[OF d j] show ?thesis by simp
  qed
qed

lemma own_records:
  assumes inv: "\<forall>r\<in>set H. map rr_retriever r = rs" and d: "distinct rs" and i: "idx < length rs"
  shows "filter (\<lambda>rec. rr_retriever rec = rs ! idx) (concat H) = map (\<lambda>r. r ! idx) H"
  using inv
proof (induction H)
  case Nil
  then show ?case by simp
next
  case (Cons r H)
  from Cons.prems have m: "map rr_retriever r = rs" by simp
  then have len: "idx < length r" using i by (metis length_map)
  have "rs ! idx = rr_retriever (r ! idx)" using m len by (metis nth_map)
  moreover have "distinct (map rr_retriever r)" using m d by simp
  ultimately have "filter (\<lambda>rec. rr_retriever rec = rs ! idx) r = [r ! idx]"
    using filter_distinct_nth[of rr_retriever r idx] len by simp
  with Cons show ?case by simp
qed

lemma failing_history_own:
  assumes run: "inner_search self col query tr = (Inr (ctxs, hist), tr')"
    and d: "distinct (retrievers self)" and i: "idx < length (retrievers self)"
  shows "nth_all idx (take t hist)
           = Inr (filter (\<lambda>rec. rr_retriever rec = retrievers self ! idx) (concat (take t hist)))"
proof -
  have inv: "\<forall>r\<in>set (take t hist). map rr_retriever r = retrievers self"
    using inner_search_history[OF run] by (auto dest: in_set_takeD)
  then have "\<forall>r\<in>set (take t hist). idx < length r"
    using i by (metis length_map)
  from nth_all_ok[OF this] own_records[OF inv d i] show ?thesis by simp
qed

subsection \<open>What the rewrite receives\<close>

text \<open>
  The user message of a rewrite, written out; retriever calls in a trace that is put together
  from parts; and the rewrite of every round of a run that returns, first for one retriever,
  then for a round, for the loop and for \<open>inner_search\<close>.
\<close>

lemma rewrite_user_prompt_text:
  "rewrite_user_prompt info avoid
     = ''Query: '' @ info
       @ (if avoid = [] then []
          else nl @ ''Here are some queries that failed to retrieve the information, please avoid using them.''
               @ concat (map (\<lambda>a. nl @ ''Failing Query: '' @ a) avoid))"
  by (simp add: rewrite_user_prompt_def)

lemma search_calls_append: "search_calls (a @ b) = search_calls a + search_calls b"
  by (simp add: search_calls_def)

lemma search_calls_Cons_Chat [simp]: "search_calls (Chat ps r # evs) = search_calls evs"
  by (simp add: search_calls_def)

lemma search_calls_Cons_Search [simp]:
  "search_calls (Search R qs k d r # evs) = Suc (search_calls evs)"
  by (simp add: search_calls_def)

lemma rewrite_call_at_shift:
  "rewrite_call_at self info R avoid q pos evs2 \<Longrightarrow>
   rewrite_call_at self info R avoid q (search_calls evs1 + pos) (evs1 @ evs2)"
  unfolding rewrite_call_at_def
  apply (elim exE conjE)
  subgoal for before p rest r after
    apply (rule exI[of _ "evs1 @ before"], rule exI[of _ p], rule exI[of _ rest],
           rule exI[of _ r], rule exI[of _ after])
    apply (simp add: search_calls_append)
    done
  done

lemma rewrite_call_at_extend:
  "rewrite_call_at self info R avoid q pos evs1 \<Longrightarrow>
   rewrite_call_at self info R avoid q pos (evs1 @ evs2)"
  unfolding rewrite_call_at_def
  apply (elim exE conjE)
  subgoal for before p rest r after
    apply (rule exI[of _ before], rule exI[of _ p], rule exI[of _ rest],
           rule exI[of _ r], rule exI[of _ "after @ evs2"])
    apply simp
    done
  done

lemma run_retriever_spec_rewrite:
  assumes rw: "rewrite self"
    and run: "run_retriever_spec self col query R failed tr = (Inr (rec, cs), tr')"
  shows "\<exists>evs. tr' = tr @ evs \<and> search_calls evs = 1
           \<and> rewrite_call_at self query R failed (rr_query rec) 0 evs"
proof -
  from run rw obtain q tr1 where q: "rewrite_with self col query R failed tr = (Inr q, tr1)"
    by (auto simp: run_retriever_spec_def split: sum.splits prod.splits)
  then obtain p rest where p: "map_of (rewrite_prompts self) R = Some p"
    and tr1: "tr1 = tr @ [Chat [p @ [(''user'', rewrite_user_prompt query failed)]]
                           (Inr (q # rest))]"
    by (auto simp: rewrite_with_def call_chat_def first_def Let_def
          split: option.splits sum.splits list.splits)
  let ?r = "search col tr1 R [q] (retriever_top_k self) (disable_cache self)"
  let ?ev = "Search R [q] (retriever_top_k self) (disable_cache self) ?r"
  from run rw q have "rr_query rec = q \<and> (\<exists>post. tr' = tr1 @ [?ev] @ post \<and> search_calls post = 0)"
    by (auto simp: run_retriever_spec_def call_search_def first_def summarize_contexts_def
          call_chat_def Let_def
        split: sum.splits prod.splits list.splits if_splits)
  then obtain post where rq: "rr_query rec = q" and tr': "tr' = tr1 @ [?ev] @ post"
    and post: "search_calls post = 0" by blast
  let ?chat = "Chat [p @ [(''user'', rewrite_user_prompt query failed)]] (Inr (q # rest))"
  have "rewrite_call_at self query R failed q 0 ([?chat, ?ev] @ post)"
    unfolding rewrite_call_at_def
    by (rule exI[of _ "[]"], rule exI[of _ p], rule exI[of _ rest], rule exI[of _ ?r],
        rule exI[of _ post]) (simp add: p rewrite_user_prompt_text)
  moreover have "tr' = tr @ ([?chat, ?ev] @ post)" using tr' tr1 by simp
  moreover have "search_calls ([?chat, ?ev] @ post) = 1" using post by simp
  ultimately show ?thesis using rq by blast
qed

lemma run_round_spec_rewrite:
  assumes rw: "rewrite self"
  shows "run_round_spec self col query pairs tr = (Inr (recs, cs), tr') \<Longrightarrow>
         \<exists>evs. tr' = tr @ evs \<and> search_calls evs = length pairs \<and> length recs = length pairs
           \<and> (\<forall>j<length pairs.
                 rewrite_call_at self query (fst (pairs ! j)) (snd (pairs ! j))
                   (rr_query (recs ! j)) j evs)"
proof (induction pairs arbitrary: recs cs tr tr')
  case Nil
  then show ?case by auto
next
  case (Cons rf pairs)
  from Cons.prems obtain rec c1 tr1 recs' cs' where
    a: "run_retriever_spec self col query (fst rf) (snd rf) tr = (Inr (rec, c1), tr1)" and
    b: "run_round_spec self col query pairs tr1 = (Inr (recs', cs'), tr')" and
    c: "recs = rec # recs'"
    by (auto split: sum.splits prod.splits)
  from run_retriever_spec_rewrite[OF rw a] obtain evs1 where e1:
    "tr1 = tr @ evs1" "search_calls evs1 = 1"
    "rewrite_call_at self query (fst rf) (snd rf) (rr_query rec) 0 evs1" by blast
  from Cons.IH[OF b] obtain evs2 where e2:
    "tr' = tr1 @ evs2" "search_calls evs2 = length pairs" "length recs' = length pairs"
    "\<forall>j<length pairs.
       rewrite_call_at self query (fst (pairs ! j)) (snd (pairs ! j)) (rr_query (recs' ! j)) j evs2"
    by blast
  have calls: "\<forall>j<length (rf # pairs).
       rewrite_call_at self query (fst ((rf # pairs) ! j)) (snd ((rf # pairs) ! j))
         (rr_query (recs ! j)) j (evs1 @ evs2)"
  proof (intro allI impI)
    fix j assume j: "j < length (rf # pairs)"
    show "rewrite_call_at self query (fst ((rf # pairs) ! j)) (snd ((rf # pairs) ! j))
            (rr_query (recs ! j)) j (evs1 @ evs2)"
    proof (cases j)
      case 0
      with e1(3) c show ?thesis by (simp add: rewrite_call_at_extend)
    next
      case (Suc j')
      with j e2(4) have
        "rewrite_call_at self query (fst (pairs ! j')) (snd (pairs ! j')) (rr_query (recs' ! j'))
           j' evs2" by simp
      from rewrite_call_at_shift[OF this, of evs1] e1(2) Suc c show ?thesis by simp
    qed
  qed
  have "tr' = tr @ (evs1 @ evs2)" using e1(1) e2(1) by simp
  moreover have "search_calls (evs1 @ evs2) = length (rf # pairs)"
    using e1(2) e2(2) by (simp add: search_calls_append)
  moreover have "length recs = length (rf # pairs)" using c e2(3) by simp
  ultimately show ?case using calls by blast
qed

lemma verify_contexts_no_search:
  "verify_contexts self col ctxs query tr = (res, tr') \<Longrightarrow>
   \<exists>evs. tr' = tr @ evs \<and> search_calls evs = 0"
  by (auto simp: verify_contexts_def call_chat_def Let_def split: sum.splits if_splits)

lemma retry_loop_spec_rewrite:
  assumes rw: "rewrite self"
  shows "retry_loop_spec self col query mx turn failed (c0, H) tr = (Inr (ctxs, hist), tr') \<Longrightarrow>
         length failed = length (retrievers self) \<Longrightarrow>
         \<exists>rounds evs. hist = H @ rounds \<and> tr' = tr @ evs
           \<and> (\<forall>s<length rounds. \<forall>idx<length (retrievers self).
                 rewrite_call_at self query (retrievers self ! idx)
                   (failed ! idx @ map (\<lambda>r. rr_query (r ! idx)) (take s rounds))
                   (rr_query (rounds ! s ! idx))
                   (s * length (retrievers self) + idx) evs)"
proof (induction "mx - turn" arbitrary: turn failed c0 H tr)
  case 0
  then have "hist = H" "tr' = tr" by (simp_all add: retry_loop_spec.simps[of _ _ _ mx])
  then show ?case by (intro exI[of _ "[]"]) simp
next
  case (Suc k)
  let ?n = "length (retrievers self)"
  let ?pairs = "zip (retrievers self) failed"
  from Suc.hyps(2) have lt: "turn < mx" and k: "k = mx - Suc turn" by simp_all
  from Suc.prems(1) lt obtain recs cs tr1 where
    r: "run_round_spec self col query ?pairs tr = (Inr (recs, cs), tr1)"
    by (auto simp: retry_loop_spec.simps[of _ _ _ mx turn] split: sum.splits prod.splits)
  from run_round_spec_rewrite[OF rw r] Suc.prems(2) obtain evs1 where e1:
    "tr1 = tr @ evs1" "search_calls evs1 = ?n" "length recs = ?n"
    "\<forall>j<?n. rewrite_call_at self query (fst (?pairs ! j)) (snd (?pairs ! j))
              (rr_query (recs ! j)) j evs1"
    by auto
  have first_round: "\<forall>idx<?n. rewrite_call_at self query (retrievers self ! idx) (failed ! idx)
                               (rr_query (recs ! idx)) idx evs1"
    using e1(4) Suc.prems(2) by simp
  from Suc.prems(1) lt r obtain pass tr2 where
    v: "verify_contexts self col cs query tr1 = (Inr pass, tr2)"
    by (auto simp: retry_loop_spec.simps[of _ _ _ mx turn] split: sum.splits prod.splits)
  from verify_contexts_no_search[OF v] obtain evs2 where e2:
    "tr2 = tr1 @ evs2" "search_calls evs2 = 0" by blast
  show ?case
  proof (cases pass)
    case True
    with Suc.prems(1) lt r v have h: "hist = H @ [recs]" "tr' = tr2"
      by (simp_all add: retry_loop_spec.simps[of _ _ _ mx turn])
    have "\<forall>s<length [recs]. \<forall>idx<?n.
            rewrite_call_at self query (retrievers self ! idx)
              (failed ! idx @ map (\<lambda>r. rr_query (r ! idx)) (take s [recs]))
              (rr_query ([recs] ! s ! idx)) (s * ?n + idx) (evs1 @ evs2)"
      using first_round by (simp add: rewrite_call_at_extend)
    moreover have "tr' = tr @ (evs1 @ evs2)" using h e1(1) e2(1) by simp
    ultimately show ?thesis using h(1) by blast
  next
    case False
    let ?failed' = "map (\<lambda>fr. fst fr @ [rr_query (snd fr)]) (zip failed recs)"
    from False Suc.prems(1) lt r v have rest:
      "retry_loop_spec self col query mx (Suc turn) ?failed' (cs, H @ [recs]) tr2
         = (Inr (ctxs, hist), tr')"
      by (simp add: retry_loop_spec.simps[of _ _ _ mx turn])
    have lf: "length ?failed' = ?n" using Suc.prems(2) e1(3) by simp
    from Suc.hyps(1)[OF k rest lf] obtain rounds' evs3 where ih:
      "hist = (H @ [recs]) @ rounds'" "tr' = tr2 @ evs3"
      "\<forall>s<length rounds'. \<forall>idx<?n.
         rewrite_call_at self query (retrievers self ! idx)
           (?failed' ! idx @ map (\<lambda>r. rr_query (r ! idx)) (take s rounds'))
           (rr_query (rounds' ! s ! idx)) (s * ?n + idx) evs3"
      by blast
    have f': "\<forall>idx<?n. ?failed' ! idx = failed ! idx @ [rr_query (recs ! idx)]"
      using Suc.prems(2) e1(3) by simp
    have c12: "search_calls (evs1 @ evs2) = ?n"
      using e1(2) e2(2) by (simp add: search_calls_append)
    have calls: "\<forall>s<length (recs # rounds'). \<forall>idx<?n.
            rewrite_call_at self query (retrievers self ! idx)
              (failed ! idx @ map (\<lambda>r. rr_query (r ! idx)) (take s (recs # rounds')))
              (rr_query ((recs # rounds') ! s ! idx)) (s * ?n + idx) ((evs1 @ evs2) @ evs3)"
    proof (intro allI impI)
      fix s idx assume s: "s < length (recs # rounds')" and idx: "idx < ?n"
      show "rewrite_call_at self query (retrievers self ! idx)
              (failed ! idx @ map (\<lambda>r. rr_query (r ! idx)) (take s (recs # rounds')))
              (rr_query ((recs # rounds') ! s ! idx)) (s * ?n + idx) ((evs1 @ evs2) @ evs3)"
      proof (cases s)
        case 0
        from first_round idx have
          "rewrite_call_at self query (retrievers self ! idx) (failed ! idx)
             (rr_query (recs ! idx)) idx evs1" by simp
        from rewrite_call_at_extend[OF this, of "evs2 @ evs3"] 0 show ?thesis by simp
      next
        case (Suc s')
        with s ih(3) idx have
          "rewrite_call_at self query (retrievers self ! idx)
             (?failed' ! idx @ map (\<lambda>r. rr_query (r ! idx)) (take s' rounds'))
             (rr_query (rounds' ! s' ! idx)) (s' * ?n + idx) evs3" by simp
        from rewrite_call_at_shift[OF this, of "evs1 @ evs2"] c12 f' idx Suc show ?thesis
          by (simp add: add.assoc)
      qed
    qed
    have "hist = H @ (recs # rounds')" using ih(1) by simp
    moreover have "tr' = tr @ ((evs1 @ evs2) @ evs3)" using ih(2) e1(1) e2(1) by simp
    ultimately show ?thesis using calls by blast
  qed
qed

lemma inner_search_rewrite:
  assumes rw: "rewrite self"
    and run: "inner_search self col query tr = (Inr (ctxs, hist), tr')"
    and d: "distinct (retrievers self)" and i: "idx < length (retrievers self)"
    and t: "t < length hist"
  shows "\<exists>evs. tr' = tr @ evs
           \<and> rewrite_call_at self query (retrievers self ! idx)
                (map rr_query (filter (\<lambda>rec. rr_retriever rec = retrievers self ! idx)
                                 (concat (take t hist))))
                (rr_query (hist ! t ! idx)) (t * length (retrievers self) + idx) evs"
proof -
  let ?n = "length (retrievers self)"
  from run have "retry_loop_spec self col query (if verify self then 3 else 1) 0
                   (replicate ?n []) ([], []) tr = (Inr (ctxs, hist), tr')"
    by (simp add: inner_search_refines inner_search_spec_def)
  from retry_loop_spec_rewrite[OF rw this] obtain evs where e: "tr' = tr @ evs"
    "\<forall>s<length hist. \<forall>idx<?n.
       rewrite_call_at self query (retrievers self ! idx)
         (replicate ?n [] ! idx @ map (\<lambda>r. rr_query (r ! idx)) (take s hist))
         (rr_query (hist ! s ! idx)) (s * ?n + idx) evs"
    by auto
  have inv: "\<forall>r\<in>set (take t hist). map rr_retriever r = retrievers self"
    using inner_search_history[OF run] by (auto dest: in_set_takeD)
  have own: "map (\<lambda>r. rr_query (r ! idx)) (take t hist)
          = map rr_query (filter (\<lambda>rec. rr_retriever rec = retrievers self ! idx)
                            (concat (take t hist)))"
    using own_records[OF inv d i] by (simp add: comp_def)
  from e(2) t i have
    "rewrite_call_at self query (retrievers self ! idx)
       (replicate ?n [] ! idx @ map (\<lambda>r. rr_query (r ! idx)) (take t hist))
       (rr_query (hist ! t ! idx)) (t * ?n + idx) evs" by blast
  with i have
    "rewrite_call_at self query (retrievers self ! idx)
       (map (\<lambda>r. rr_query (r ! idx)) (take t hist))
       (rr_query (hist ! t ! idx)) (t * ?n + idx) evs" by simp
  then have
    "rewrite_call_at self query (retrievers self ! idx)
       (map rr_query (filter (\<lambda>rec. rr_retriever rec = retrievers self ! idx)
                        (concat (take t hist))))
       (rr_query (hist ! t ! idx)) (t * ?n + idx) evs" by (simp only: own)
  with e(1) show ?thesis by blast
qed

subsection \<open>The claims about the retry loop\<close>

lemma well_behaved_example: "well_behaved ex_self ex_col"
  by (simp add: well_behaved_def ex_self_def ex_col_def ex_group_def)

lemma well_behaved_plain: "well_behaved ex_plain ex_col"
  by (simp add: well_behaved_def ex_plain_def ex_self_def ex_col_def ex_group_def)

lemma always_rejects_example: "always_rejects ex_self ex_col ''q''"
  by (simp add: always_rejects_def ex_self_def ex_col_def lower_def lower_char_def sublist_code(3))

text \<open>
  C2. With verification enabled and failing on every turn, and collaborators that keep
  their contracts, \<open>inner_search\<close> returns without an error after exactly three rounds:
  the history holds the three rounds, each with one record per retriever in the
  configured order, the returned contexts are those of the third round, and the
  retrievers were called three times each. With verification disabled it returns after
  exactly one round. Whatever the collaborators do, the retrievers are never called more
  than three times each (once each without verification).
\<close>

theorem retry_bound:
  "(well_behaved self col \<and> verify self \<and> always_rejects self col query \<longrightarrow>
      (\<exists>r1 r2 r3 tr'.
         inner_search self col query tr = (Inr (round_contexts r3, [r1, r2, r3]), tr')
         \<and> map rr_retriever r1 = retrievers self \<and> map rr_retriever r2 = retrievers self
         \<and> map rr_retriever r3 = retrievers self
         \<and> search_calls tr' = search_calls tr + 3 * length (retrievers self)))
   \<and> (well_behaved self col \<and> \<not> verify self \<longrightarrow>
      (\<exists>r1 tr'.
         inner_search self col query tr = (Inr (round_contexts r1, [r1]), tr')
         \<and> map rr_retriever r1 = retrievers self
         \<and> search_calls tr' = search_calls tr + length (retrievers self)))
   \<and> search_calls (snd (inner_search self col query tr))
        \<le> search_calls tr + (if verify self then 3 else 1) * length (retrievers self)"
proof (intro conjI impI)
  assume a: "well_behaved self col \<and> verify self \<and> always_rejects self col query"
  from retry_loop_rejects[of self col query "replicate (length (retrievers self)) []" 3 0
         "[]" "[]" tr] a
  obtain rounds tr' where r:
    "retry_loop_spec self col query 3 0 (replicate (length (retrievers self)) []) ([], []) tr
       = (Inr (round_contexts (last rounds), rounds), tr')"
    "length rounds = 3"
    "\<forall>r\<in>set rounds. map rr_retriever r = retrievers self"
    "search_calls tr' = search_calls tr + 3 * length (retrievers self)"
    by auto
  from r(2) obtain r1 r2 r3 where rs: "rounds = [r1, r2, r3]"
    by (auto simp: length_Suc_conv numeral_3_eq_3)
  from r rs a show "\<exists>r1 r2 r3 tr'.
         inner_search self col query tr = (Inr (round_contexts r3, [r1, r2, r3]), tr')
         \<and> map rr_retriever r1 = retrievers self \<and> map rr_retriever r2 = retrievers self
         \<and> map rr_retriever r3 = retrievers self
         \<and> search_calls tr' = search_calls tr + 3 * length (retrievers self)"
    by (auto simp: inner_search_refines inner_search_spec_def)
next
  assume a: "well_behaved self col \<and> \<not> verify self"
  from retry_loop_no_verify[of self col "replicate (length (retrievers self)) []" 0 1 query
         "[]" "[]" tr] a
  show "\<exists>r1 tr'.
         inner_search self col query tr = (Inr (round_contexts r1, [r1]), tr')
         \<and> map rr_retriever r1 = retrievers self
         \<and> search_calls tr' = search_calls tr + length (retrievers self)"
    by (auto simp: inner_search_refines inner_search_spec_def)
next
  show "search_calls (snd (inner_search self col query tr))
        \<le> search_calls tr + (if verify self then 3 else 1) * length (retrievers self)"
    using retry_loop_calls[of self col query "if verify self then 3 else 1" 0
            "replicate (length (retrievers self)) []" "([], [])" tr]
    by (simp add: inner_search_refines inner_search_spec_def)
qed

theorem retry_bound_witness:
  "well_behaved ex_self ex_col \<and> verify ex_self \<and> always_rejects ex_self ex_col ''q''
   \<and> (\<exists>r1 r2 r3 tr'.
         inner_search ex_self ex_col ''q'' [] = (Inr (round_contexts r3, [r1, r2, r3]), tr')
         \<and> map rr_retriever r3 = [''bm25'', ''bing''] \<and> search_calls tr' = 6)
   \<and> well_behaved ex_plain ex_col \<and> \<not> verify ex_plain
   \<and> (\<exists>r1 tr'.
         inner_search ex_plain ex_col ''q'' [] = (Inr (round_contexts r1, [r1]), tr')
         \<and> map rr_retriever r1 = [''bm25'', ''bing''] \<and> search_calls tr' = 2)
   \<and> search_calls (snd (inner_search ex_self ex_col ''q'' [])) \<le> 6"
proof -
  have v: "verify ex_self" "\<not> verify ex_plain"
    "retrievers ex_self = [''bm25'', ''bing'']" "retrievers ex_plain = [''bm25'', ''bing'']"
    by (simp_all add: ex_self_def ex_plain_def)
  note wb = well_behaved_example well_behaved_plain always_rejects_example
  from retry_bound[of ex_self ex_col "''q''" "[]"] wb v
  have one: "\<exists>r1 r2 r3 tr'.
         inner_search ex_self ex_col ''q'' [] = (Inr (round_contexts r3, [r1, r2, r3]), tr')
         \<and> map rr_retriever r3 = [''bm25'', ''bing''] \<and> search_calls tr' = 6"
    and three: "search_calls (snd (inner_search ex_self ex_col ''q'' [])) \<le> 6"
    by auto
  from retry_bound[of ex_plain ex_col "''q''" "[]"] wb v
  have two: "\<exists>r1 tr'.
         inner_search ex_plain ex_col ''q'' [] = (Inr (round_contexts r1, [r1]), tr')
         \<and> map rr_retriever r1 = [''bm25'', ''bing''] \<and> search_calls tr' = 2"
    by auto
  from one two three wb v show ?thesis by blast
qed

text \<open>The run of the example with two retrievers, and the event at position 12 of its trace.\<close>

lemma ex_rw_run: "fst (inner_search ex_rw_self ex_rw_col ''q'' []) = Inr ([], ex_rw_history)"
  by code_simp

lemma ex_rw_event:
  "snd (inner_search ex_rw_self ex_rw_col ''q'' []) ! 12
     = Chat [[(''system'', ''Rewrite for Bing.''),
              (''user'', ''Query: q'' @ nl
                 @ ''Here are some queries that failed to retrieve the information, please avoid using them.''
                 @ nl @ ''Failing Query: v2'' @ nl @ ''Failing Query: v7'')]]
         (Inr [''v12''])"
  by code_simp

text \<open>
  C5. When queries are rewritten, a run of \<open>inner_search\<close> that returns has put the following
  events on record for round \<open>t\<close> (counted from 0) and the retriever at position \<open>idx\<close>:
  after exactly \<open>t * n + idx\<close> retriever calls, where \<open>n\<close> is the number of retrievers,
  the language model was sent one prompt, the rewrite prompt of that retriever followed by
  the user message that names the information and lists as failing queries exactly the
  queries of the records of that retriever in the rounds before \<open>t\<close>, in round order, and
  of no record of another retriever; in round 0 no failing query is mentioned. The
  response is the query of the record at position \<open>idx\<close> of round \<open>t\<close>, and the next event
  is the call of the retriever with that query, so that the queries listed in a later round
  are the ones the retriever was called with. In terms of the history the code keeps, the
  failing history that line 269 computes consists of exactly the records of that retriever.
  \<open>inner_search\<close> is moreover the loop of the specification that carries, for each
  retriever, the list of its queries in the prior failed rounds.
\<close>

theorem rewrite_feedback_is_own_history:
  "inner_search self col query tr = inner_search_spec self col query tr
   \<and> (inner_search self col query tr = (Inr (ctxs, hist), tr')
        \<and> distinct (retrievers self) \<and> idx < length (retrievers self)
      \<longrightarrow> nth_all idx (take t hist)
            = Inr (filter (\<lambda>rec. rr_retriever rec = retrievers self ! idx)
                     (concat (take t hist))))
   \<and> (rewrite self \<and> inner_search self col query tr = (Inr (ctxs, hist), tr')
        \<and> distinct (retrievers self) \<and> idx < length (retrievers self) \<and> t < length hist
      \<longrightarrow> (\<exists>evs. tr' = tr @ evs
              \<and> rewrite_call_at self query (retrievers self ! idx)
                  (map rr_query (filter (\<lambda>rec. rr_retriever rec = retrievers self ! idx)
                                   (concat (take t hist))))
                  (rr_query (hist ! t ! idx)) (t * length (retrievers self) + idx) evs)
          \<and> map rr_retriever (hist ! t) = retrievers self)"
proof -
  have A: "inner_search self col query tr = inner_search_spec self col query tr"
    by (rule inner_search_refines)
  have B: "inner_search self col query tr = (Inr (ctxs, hist), tr')
        \<and> distinct (retrievers self) \<and> idx < length (retrievers self)
      \<longrightarrow> nth_all idx (take t hist)
            = Inr (filter (\<lambda>rec. rr_retriever rec = retrievers self ! idx)
                     (concat (take t hist)))"
    using failing_history_own[of self col query tr ctxs hist tr' idx t] by blast
  have C: "rewrite self \<and> inner_search self col query tr = (Inr (ctxs, hist), tr')
        \<and> distinct (retrievers self) \<and> idx < length (retrievers self) \<and> t < length hist
      \<longrightarrow> (\<exists>evs. tr' = tr @ evs
              \<and> rewrite_call_at self query (retrievers self ! idx)
                  (map rr_query (filter (\<lambda>rec. rr_retriever rec = retrievers self ! idx)
                                   (concat (take t hist))))
                  (rr_query (hist ! t ! idx)) (t * length (retrievers self) + idx) evs)
          \<and> map rr_retriever (hist ! t) = retrievers self"
  proof (rule impI)
    assume h: "rewrite self \<and> inner_search self col query tr = (Inr (ctxs, hist), tr')
        \<and> distinct (retrievers self) \<and> idx < length (retrievers self) \<and> t < length hist"
    then have rw: "rewrite self"
      and run: "inner_search self col query tr = (Inr (ctxs, hist), tr')"
      and d: "distinct (retrievers self)" and i: "idx < length (retrievers self)"
      and t: "t < length hist" by simp_all
    from inner_search_history[OF run] t have "map rr_retriever (hist ! t) = retrievers self"
      by simp
    with inner_search_rewrite[OF rw run d i t]
    show "(\<exists>evs. tr' = tr @ evs
              \<and> rewrite_call_at self query (retrievers self ! idx)
                  (map rr_query (filter (\<lambda>rec. rr_retriever rec = retrievers self ! idx)
                                   (concat (take t hist))))
                  (rr_query (hist ! t ! idx)) (t * length (retrievers self) + idx) evs)
          \<and> map rr_retriever (hist ! t) = retrievers self" by (rule conjI)
  qed
  show ?thesis by (rule conjI[OF A conjI[OF B C]])
qed

theorem rewrite_feedback_is_own_history_witness:
  "fst (inner_search ex_rw_self ex_rw_col ''q'' []) = Inr ([], ex_rw_history)
   \<and> nth_all 1 (take 2 ex_rw_history)
       = Inr [ex_rw_record ''bing'' ''v2'', ex_rw_record ''bing'' ''v7'']
   \<and> rewrite_call_at ex_rw_self ''q'' ''bing'' [''v2'', ''v7''] ''v12'' 5
       (snd (inner_search ex_rw_self ex_rw_col ''q'' []))
   \<and> rewrite_call_at ex_rw_self ''q'' ''bm25'' [] ''v0'' 0
       (snd (inner_search ex_rw_self ex_rw_col ''q'' []))
   \<and> snd (inner_search ex_rw_self ex_rw_col ''q'' []) ! 12
       = Chat [[(''system'', ''Rewrite for Bing.''),
                (''user'', ''Query: q'' @ nl
                   @ ''Here are some queries that failed to retrieve the information, please avoid using them.''
                   @ nl @ ''Failing Query: v2'' @ nl @ ''Failing Query: v7'')]]
           (Inr [''v12''])"
proof -
  let ?tr = "snd (inner_search ex_rw_self ex_rw_col ''q'' [])"
  have run: "inner_search ex_rw_self ex_rw_col ''q'' [] = (Inr ([], ex_rw_history), ?tr)"
    using ex_rw_run by (simp add: prod_eq_iff)
  have cfg: "rewrite ex_rw_self" "distinct (retrievers ex_rw_self)"
    "retrievers ex_rw_self = [''bm25'', ''bing'']" "length ex_rw_history = 3"
    by (simp_all add: ex_rw_self_def ex_rw_history_def)
  have own2: "filter (\<lambda>rec. rr_retriever rec = ''bing'') (concat (take 2 ex_rw_history))
                = [ex_rw_record ''bing'' ''v2'', ex_rw_record ''bing'' ''v7'']"
    by (simp add: ex_rw_history_def ex_rw_record_def numeral_2_eq_2)
  have q2: "rr_query (ex_rw_history ! 2 ! 1) = ''v12''" "rr_query (ex_rw_history ! 0 ! 0) = ''v0''"
    "rr_query (ex_rw_record ''bing'' ''v2'') = ''v2''"
    "rr_query (ex_rw_record ''bing'' ''v7'') = ''v7''"
    by (simp_all add: ex_rw_history_def ex_rw_record_def)
  note thm1 = rewrite_feedback_is_own_history
                [of ex_rw_self ex_rw_col "''q''" "[]" "[]" ex_rw_history ?tr 1 2, THEN conjunct2]
  note thm0 = rewrite_feedback_is_own_history
                [of ex_rw_self ex_rw_col "''q''" "[]" "[]" ex_rw_history ?tr 0 0, THEN conjunct2]
  from thm1 run cfg have h: "nth_all 1 (take 2 ex_rw_history)
            = Inr (filter (\<lambda>rec. rr_retriever rec = ''bing'') (concat (take 2 ex_rw_history)))"
    by simp
  from thm1 run cfg have
    "rewrite_call_at ex_rw_self ''q'' ''bing''
       (map rr_query (filter (\<lambda>rec. rr_retriever rec = ''bing'') (concat (take 2 ex_rw_history))))
       (rr_query (ex_rw_history ! 2 ! 1)) 5 ?tr"
    by simp
  then have c1: "rewrite_call_at ex_rw_self ''q'' ''bing'' [''v2'', ''v7''] ''v12'' 5 ?tr"
    by (simp only: own2 q2 list.map)
  from thm0 run cfg have
    "rewrite_call_at ex_rw_self ''q'' ''bm25''
       (map rr_query (filter (\<lambda>rec. rr_retriever rec = ''bm25'') (concat (take 0 ex_rw_history))))
       (rr_query (ex_rw_history ! 0 ! 0)) 0 ?tr"
    by simp
  then have c0: "rewrite_call_at ex_rw_self ''q'' ''bm25'' [] ''v0'' 0 ?tr"
    by (simp add: q2)
  from ex_rw_run h c1 c0 ex_rw_event show ?thesis by (simp only: own2 simp_thms)
qed

subsection \<open>A malformed result ends the search\<close>

lemma malformed_Chat [simp]: "\<not> malformed (Chat ps r)"
  by simp

lemma fatal_stop_Nil [simp]: "fatal_stop [] res"
  by (simp add: fatal_stop_def)

lemma fatal_stop_clean: "\<not> list_ex malformed evs \<Longrightarrow> fatal_stop evs res"
  by (simp add: fatal_stop_def)

lemma fatal_stop_Inr: "fatal_stop evs (Inr x) \<Longrightarrow> \<not> list_ex malformed evs"
  by (auto simp: fatal_stop_def)

lemma fatal_stop_Inl: "fatal_stop evs (Inl e :: error + 'a) \<Longrightarrow> fatal_stop evs (Inl e :: error + 'b)"
  by (auto simp: fatal_stop_def)

lemma fatal_stop_append:
  assumes "\<not> list_ex malformed evs1" and "fatal_stop evs2 res"
  shows "fatal_stop (evs1 @ evs2) res"
proof (cases "list_ex malformed evs2")
  case False
  with assms(1) show ?thesis by (simp add: fatal_stop_def)
next
  case True
  then have ne: "evs2 \<noteq> []" by auto
  from True assms(2) have "res = Inl AssertionError" "malformed (last evs2)"
    "\<not> list_ex malformed (butlast evs2)" by (auto simp: fatal_stop_def)
  with ne assms(1) show ?thesis by (simp add: fatal_stop_def butlast_append)
qed

lemma build_contexts_Inr:
  "build_contexts R q g = Inr ctxs \<Longrightarrow>
   \<not> (map_of g ''indices'' = None \<and> map_of g ''urls'' = None)"
  by (auto simp: build_contexts_def split: option.splits)

lemma build_contexts_neither:
  "map_of g ''indices'' = None \<Longrightarrow> map_of g ''urls'' = None \<Longrightarrow>
   build_contexts R q g = Inl AssertionError"
  by (simp add: build_contexts_def)

lemma rewrite_with_events:
  "rewrite_with self col query R failed tr = (res, tr') \<Longrightarrow>
   \<exists>evs. tr' = tr @ evs \<and> \<not> list_ex malformed evs"
  by (auto simp: rewrite_with_def call_chat_def Let_def split: option.splits)

lemma summarize_contexts_events:
  "summarize_contexts self col ctxs query tr = (res, tr') \<Longrightarrow>
   \<exists>evs. tr' = tr @ evs \<and> \<not> list_ex malformed evs"
  by (auto simp: summarize_contexts_def call_chat_def Let_def split: sum.splits)

lemma verify_contexts_events:
  "verify_contexts self col ctxs query tr = (res, tr') \<Longrightarrow>
   \<exists>evs. tr' = tr @ evs \<and> \<not> list_ex malformed evs"
  by (auto simp: verify_contexts_def call_chat_def Let_def split: sum.splits if_splits)

lemma search_part_fatal:
  assumes "(let (r, tr2) = call_search col R [q] k d tr1
            in case first r of
                 Inl e \<Rightarrow> (Inl e, tr2)
               | Inr g \<Rightarrow>
                   (case build_contexts R q g of
                      Inl e \<Rightarrow> (Inl e, tr2)
                    | Inr ctxs \<Rightarrow> cont ctxs tr2)) = (res, tr')"
    and cont: "\<And>ctxs tr2. \<exists>evs. snd (cont ctxs tr2) = tr2 @ evs \<and> \<not> list_ex malformed evs"
  shows "\<exists>evs. tr' = tr1 @ evs \<and> fatal_stop evs res"
proof -
  let ?r = "search col tr1 R [q] k d"
  let ?tr2 = "tr1 @ [Search R [q] k d ?r]"
  show ?thesis
  proof (cases "first ?r")
    case (Inl e)
    then have "\<not> malformed (Search R [q] k d ?r)"
      by (cases ?r; cases "projr ?r") (auto simp: first_def)
    with Inl assms(1) show ?thesis
      by (auto simp: call_search_def Let_def fatal_stop_def)
  next
    case (Inr g)
    then obtain gs where r: "?r = Inr (g # gs)"
      by (auto simp: first_def split: sum.splits list.splits)
    show ?thesis
    proof (cases "build_contexts R q g")
      case (Inl e)
      show ?thesis
      proof (cases "map_of g ''indices'' = None \<and> map_of g ''urls'' = None")
        case True
        with Inl have "e = AssertionError" by (simp add: build_contexts_neither)
        with Inl Inr r True assms(1) show ?thesis
          by (auto simp: call_search_def Let_def fatal_stop_def)
      next
        case False
        with Inl Inr r assms(1) show ?thesis
          by (auto simp: call_search_def Let_def fatal_stop_def)
      qed
    next
      case ctxs: (Inr ctxs)
      from build_contexts_Inr[OF ctxs] r have nm: "\<not> malformed (Search R [q] k d ?r)" by simp
      from cont[of ctxs ?tr2] obtain evs where
        e: "snd (cont ctxs ?tr2) = ?tr2 @ evs" "\<not> list_ex malformed evs" by blast
      from ctxs Inr assms(1) have "cont ctxs ?tr2 = (res, tr')"
        by (simp add: call_search_def Let_def)
      with e nm show ?thesis
        by (intro exI[of _ "Search R [q] k d ?r # evs"]) (auto simp: fatal_stop_def)
    qed
  qed
qed

lemma run_retriever_spec_fatal:
  assumes run: "run_retriever_spec self col query R failed tr = (res, tr')"
  shows "\<exists>evs. tr' = tr @ evs \<and> fatal_stop evs res"
proof -
  obtain rq tr1 where rw:
    "(if rewrite self then rewrite_with self col query R failed tr else (Inr query, tr))
       = (rq, tr1)"
    by (cases "if rewrite self then rewrite_with self col query R failed tr else (Inr query, tr)")
  then obtain evs0 where e0: "tr1 = tr @ evs0" "\<not> list_ex malformed evs0"
    using rewrite_with_events[of self col query R failed tr rq tr1]
    by (cases "rewrite self") auto
  show ?thesis
  proof (cases rq)
    case (Inl e)
    with run rw have "res = Inl e" "tr' = tr1" by (auto simp: run_retriever_spec_def)
    with e0 show ?thesis by (auto intro: fatal_stop_clean)
  next
    case (Inr q)
    let ?cont = "\<lambda>ctxs tr2.
        if summary_context self then
          (case summarize_contexts self col ctxs query tr2 of
             (Inl e, tr3) \<Rightarrow> (Inl e, tr3)
           | (Inr summarized, tr3) \<Rightarrow>
               (Inr (\<lparr>rr_retriever = R, rr_query = q,
                      rr_contexts = ctxs, rr_summarized = Some summarized\<rparr>,
                     filter (\<lambda>i. ctx_text i \<noteq> None) summarized), tr3))
        else
          (Inr (\<lparr>rr_retriever = R, rr_query = q, rr_contexts = ctxs,
                 rr_summarized = None\<rparr>, ctxs), tr2)"
    have cont: "\<exists>evs. snd (?cont ctxs tr2) = tr2 @ evs \<and> \<not> list_ex malformed evs" for ctxs tr2
    proof (cases "summary_context self")
      case True
      obtain sr tr3 where s: "summarize_contexts self col ctxs query tr2 = (sr, tr3)"
        by (cases "summarize_contexts self col ctxs query tr2")
      from summarize_contexts_events[OF s] s True show ?thesis
        by (auto split: sum.splits)
    next
      case False
      then show ?thesis by simp
    qed
    from run rw Inr have
      "(let (r, tr2) = call_search col R [q] (retriever_top_k self) (disable_cache self) tr1
        in case first r of
             Inl e \<Rightarrow> (Inl e, tr2)
           | Inr g \<Rightarrow>
               (case build_contexts R q g of
                  Inl e \<Rightarrow> (Inl e, tr2)
                | Inr ctxs \<Rightarrow> ?cont ctxs tr2)) = (res, tr')"
      by (simp add: run_retriever_spec_def)
    from search_part_fatal[OF this cont] obtain evs where
      "tr' = tr1 @ evs" "fatal_stop evs res" by blast
    with e0 show ?thesis
      by (intro exI[of _ "evs0 @ evs"]) (simp add: fatal_stop_append)
  qed
qed

lemma run_round_spec_fatal:
  "run_round_spec self col query pairs tr = (res, tr') \<Longrightarrow>
   \<exists>evs. tr' = tr @ evs \<and> fatal_stop evs res"
proof (induction pairs arbitrary: tr res tr')
  case Nil
  then show ?case by auto
next
  case (Cons rf pairs)
  obtain r1 tr1 where a: "run_retriever_spec self col query (fst rf) (snd rf) tr = (r1, tr1)"
    by (cases "run_retriever_spec self col query (fst rf) (snd rf) tr")
  from run_retriever_spec_fatal[OF a] obtain evs1 where
    e1: "tr1 = tr @ evs1" "fatal_stop evs1 r1" by blast
  show ?case
  proof (cases r1)
    case (Inl e)
    with Cons.prems a have "res = Inl e" "tr' = tr1" by auto
    with e1 Inl show ?thesis by (auto intro: fatal_stop_Inl)
  next
    case (Inr rc)
    obtain r2 tr2 where b: "run_round_spec self col query pairs tr1 = (r2, tr2)"
      by (cases "run_round_spec self col query pairs tr1")
    from Cons.IH[OF b] obtain evs2 where e2: "tr2 = tr1 @ evs2" "fatal_stop evs2 r2" by blast
    from e1 Inr have c1: "\<not> list_ex malformed evs1" by (auto dest: fatal_stop_Inr)
    have tr': "tr' = tr2" using Cons.prems a b Inr by (auto split: sum.splits prod.splits)
    have "fatal_stop evs2 res"
    proof (cases r2)
      case (Inl e)
      with Cons.prems a b Inr have "res = Inl e" by (auto split: prod.splits)
      with e2 Inl show ?thesis by (auto intro: fatal_stop_Inl)
    next
      case r2: (Inr x)
      with e2 have "\<not> list_ex malformed evs2" by (auto dest: fatal_stop_Inr)
      then show ?thesis by (rule fatal_stop_clean)
    qed
    with c1 e1 e2 tr' show ?thesis
      by (intro exI[of _ "evs1 @ evs2"]) (simp add: fatal_stop_append)
  qed
qed

lemma retry_loop_spec_fatal:
  "retry_loop_spec self col query mx turn failed st tr = (res, tr') \<Longrightarrow>
   \<exists>evs. tr' = tr @ evs \<and> fatal_stop evs res"
proof (induction "mx - turn" arbitrary: turn failed st tr)
  case 0
  then show ?case by (auto simp: retry_loop_spec.simps[of _ _ _ mx])
next
  case (Suc k)
  let ?pairs = "zip (retrievers self) failed"
  from Suc.hyps(2) have lt: "turn < mx" and k: "k = mx - Suc turn" by simp_all
  obtain r1 tr1 where a: "run_round_spec self col query ?pairs tr = (r1, tr1)"
    by (cases "run_round_spec self col query ?pairs tr")
  from run_round_spec_fatal[OF a] obtain evs1 where
    e1: "tr1 = tr @ evs1" "fatal_stop evs1 r1" by blast
  show ?case
  proof (cases r1)
    case (Inl e)
    with Suc.prems a lt have "res = Inl e" "tr' = tr1"
      by (auto simp: retry_loop_spec.simps[of _ _ _ mx turn])
    with e1 Inl show ?thesis by (auto intro: fatal_stop_Inl)
  next
    case (Inr rc)
    obtain recs ctxs where rc: "rc = (recs, ctxs)" by (cases rc)
    from e1 Inr have c1: "\<not> list_ex malformed evs1" by (auto dest: fatal_stop_Inr)
    obtain vr tr2 where v: "verify_contexts self col ctxs query tr1 = (vr, tr2)"
      by (cases "verify_contexts self col ctxs query tr1")
    from verify_contexts_events[OF v] obtain evs2 where
      e2: "tr2 = tr1 @ evs2" "\<not> list_ex malformed evs2" by blast
    have c12: "\<not> list_ex malformed (evs1 @ evs2)" using c1 e2 by simp
    show ?thesis
    proof (cases vr)
      case (Inl e)
      with Suc.prems a Inr rc v lt have "res = Inl e" "tr' = tr2"
        by (auto simp: retry_loop_spec.simps[of _ _ _ mx turn])
      with e1 e2 c12 show ?thesis
        by (intro exI[of _ "evs1 @ evs2"]) (simp add: fatal_stop_clean)
    next
      case pass: (Inr pass)
      show ?thesis
      proof (cases pass)
        case True
        with Suc.prems a Inr rc v pass lt have "tr' = tr2"
          by (auto simp: retry_loop_spec.simps[of _ _ _ mx turn])
        with e1 e2 c12 show ?thesis
          by (intro exI[of _ "evs1 @ evs2"]) (simp add: fatal_stop_clean)
      next
        case False
        with Suc.prems a Inr rc v pass lt have
          "retry_loop_spec self col query mx (Suc turn)
             (map (\<lambda>fr. fst fr @ [rr_query (snd fr)]) (zip failed recs))
             (ctxs, snd st @ [recs]) tr2 = (res, tr')"
          by (auto simp: retry_loop_spec.simps[of _ _ _ mx turn])
        from Suc.hyps(1)[OF k this] obtain evs3 where
          e3: "tr' = tr2 @ evs3" "fatal_stop evs3 res" by blast
        with e1 e2 c12 show ?thesis
          by (intro exI[of _ "(evs1 @ evs2) @ evs3"]) (simp add: fatal_stop_append)
      qed
    qed
  qed
qed

lemma inner_search_fatal:
  "inner_search self col query tr = (res, tr') \<Longrightarrow>
   \<exists>evs. tr' = tr @ evs \<and> fatal_stop evs res"
  using retry_loop_spec_fatal[of self col query _ 0 _ "([], [])" tr res tr']
  by (simp add: inner_search_refines inner_search_spec_def)

lemma build_contexts_indices:
  "map_of g ''indices'' = Some ids \<Longrightarrow> map_of g ''texts'' = Some texts \<Longrightarrow>
   build_contexts R q g
     = Inr (map (context_of R q) (zip texts ids))"
  by (simp add: build_contexts_def)

lemma build_contexts_urls:
  "map_of g ''indices'' = None \<Longrightarrow> map_of g ''urls'' = Some urls \<Longrightarrow>
   map_of g ''texts'' = Some texts \<Longrightarrow>
   build_contexts R q g
     = Inr (map (context_of R q) (zip texts urls))"
  by (simp add: build_contexts_def)

subsection \<open>Summaries\<close>

lemma apply_summaries_length: "length (apply_summaries rs cs) = length cs"
  by (induction rs cs rule: apply_summaries.induct) auto

lemma apply_summaries_nth:
  "length rs = length cs \<Longrightarrow> i < length cs \<Longrightarrow>
   apply_summaries rs cs ! i
     = (cs ! i)\<lparr>ctx_text := (if not_relevant (rs ! i) then None else Some (rs ! i))\<rparr>"
proof (induction rs cs arbitrary: i rule: apply_summaries.induct)
  case (1 summ rest c cs)
  then show ?case by (cases i) auto
qed auto

lemma not_relevant_iff: "not_relevant s \<longleftrightarrow> begins_with_phrase (lower s)"
  by (simp add: not_relevant_def begins_with_phrase_def Let_def)

lemma begins_contains: "begins_with_phrase s \<Longrightarrow> contains_phrase s"
  by (auto simp: begins_with_phrase_def contains_phrase_def)

lemma retriever_step_summary:
  assumes "summary_context self"
    and "retriever_step self col query (length H) idx R (contexts, H @ [partial]) tr
           = (Inr (contexts', history'), tr')"
  shows "\<exists>rec responses tr2.
           history' = H @ [partial @ [rec]] \<and> rr_retriever rec = R
         \<and> chat col tr2 (summary_prompts self (rr_contexts rec) query) = Inr responses
         \<and> rr_summarized rec = Some (apply_summaries responses (rr_contexts rec))
         \<and> contexts' = contexts @ filter (\<lambda>c. ctx_text c \<noteq> None)
                                    (apply_summaries responses (rr_contexts rec))"
  using assms
  apply (auto simp: retriever_step_def append_record_last set_summarized_last
        summarize_contexts_def call_chat_def Let_def
      split: sum.splits prod.splits if_splits)
    apply blast+
  done

subsection \<open>What a round records\<close>

lemma build_contexts_fields:
  assumes "ctxs = map (context_of R q) (zip texts ids)"
  shows "map ctx_source ctxs = take (min (length texts) (length ids)) ids
       \<and> map ctx_full_text ctxs = take (min (length texts) (length ids)) texts
       \<and> map ctx_text ctxs = map Some (take (min (length texts) (length ids)) texts)
       \<and> list_all (\<lambda>c. ctx_retriever c = R \<and> ctx_query c = q) ctxs"
proof -
  have s: "map ctx_source ctxs = map snd (zip texts ids)"
    and f: "map ctx_full_text ctxs = map fst (zip texts ids)"
    and t: "map ctx_text ctxs = map Some (map fst (zip texts ids))"
    and r: "list_all (\<lambda>c. ctx_retriever c = R \<and> ctx_query c = q) ctxs"
    using assms by (simp_all add: context_of_def comp_def list_all_iff)
  from s f t r show ?thesis
    by (simp add: map_snd_zip_take map_fst_zip_take)
qed

lemma retriever_step_builds:
  assumes "retriever_step self col query (length H) idx R (contexts, H @ [partial]) tr
             = (Inr (contexts', history'), tr')"
  shows "\<exists>rec g gs evs.
           history' = H @ [partial @ [rec]] \<and> rr_retriever rec = R \<and> tr' = tr @ evs
         \<and> Search R [rr_query rec] (retriever_top_k self) (disable_cache self) (Inr (g # gs))
             \<in> set evs
         \<and> build_contexts R (rr_query rec) g = Inr (rr_contexts rec)"
proof -
  obtain rq tr1 where rw:
    "(if rewrite self then
        (case nth_all idx (take (length H) (H @ [partial])) of
           Inl e \<Rightarrow> (Inl e, tr)
         | Inr failing_history \<Rightarrow> rewrite_query self col query R failing_history tr)
      else (Inr query, tr)) = (rq, tr1)"
    by (cases "if rewrite self then
        (case nth_all idx (take (length H) (H @ [partial])) of
           Inl e \<Rightarrow> (Inl e, tr)
         | Inr failing_history \<Rightarrow> rewrite_query self col query R failing_history tr)
      else (Inr query, tr)")
  then obtain evs0 where e0: "tr1 = tr @ evs0"
    by (auto simp: rewrite_query_def rewrite_with_def call_chat_def Let_def
          split: if_splits sum.splits option.splits)
  from assms rw obtain q where q: "rq = Inr q"
    by (cases rq) (auto simp: retriever_step_def)
  let ?r = "search col tr1 R [q] (retriever_top_k self) (disable_cache self)"
  let ?ev = "Search R [q] (retriever_top_k self) (disable_cache self) ?r"
  from assms rw q obtain g gs ctxs where g: "?r = Inr (g # gs)"
    and b: "build_contexts R q g = Inr ctxs"
    by (auto simp: retriever_step_def call_search_def first_def Let_def
          split: sum.splits list.splits)
  show ?thesis
  proof (cases "summary_context self")
    case False
    with assms rw q g b have
      "history' = H @ [partial @ [\<lparr>rr_retriever = R, rr_query = q, rr_contexts = ctxs,
                                   rr_summarized = None\<rparr>]]"
      "tr' = tr1 @ [?ev]"
      by (auto simp: retriever_step_def call_search_def first_def append_record_last Let_def)
    with e0 g b show ?thesis
      by (intro exI[of _ "\<lparr>rr_retriever = R, rr_query = q, rr_contexts = ctxs,
                           rr_summarized = None\<rparr>"] exI[of _ g] exI[of _ gs]
                exI[of _ "evs0 @ [?ev]"]) simp
  next
    case True
    obtain sr tr3 where s: "summarize_contexts self col ctxs query (tr1 @ [?ev]) = (sr, tr3)"
      by (cases "summarize_contexts self col ctxs query (tr1 @ [?ev])")
    then obtain evs3 where e3: "tr3 = (tr1 @ [?ev]) @ evs3"
      by (auto simp: summarize_contexts_def call_chat_def Let_def split: sum.splits)
    from assms rw q g b True s obtain summarized where
      "history' = H @ [partial @ [\<lparr>rr_retriever = R, rr_query = q, rr_contexts = ctxs,
                                   rr_summarized = Some summarized\<rparr>]]"
      "tr' = tr3"
      by (auto simp: retriever_step_def call_search_def first_def append_record_last
            set_summarized_last Let_def split: sum.splits)
    with e0 e3 g b show ?thesis
      by (intro exI[of _ "\<lparr>rr_retriever = R, rr_query = q, rr_contexts = ctxs,
                           rr_summarized = Some summarized\<rparr>"] exI[of _ g] exI[of _ gs]
                exI[of _ "evs0 @ [?ev] @ evs3"]) simp
  qed
qed

subsection \<open>The claims about one retrieval round\<close>

lemma malformed_example_run:
  "inner_search ex_self ex_bad_col ''q'' []
     = (Inl AssertionError,
        [Chat [[(''user'', ''Query: q'')]] (Inr [''no'']),
         Search ''bm25'' [''no''] 10 False (Inr [ex_bad_group])])"
  by (simp add: inner_search_def search_loop.simps[of _ _ _ 3 0] retriever_step_def
        rewrite_query_def rewrite_with_def rewrite_user_prompt_def call_chat_def call_search_def
        first_def build_contexts_def ex_self_def ex_bad_col_def ex_bad_group_def Let_def)

lemma summary_example_step:
  "retriever_step ex_sum_self ex_sum_col ''q'' 0 0 ''bm25'' ([], [[]]) []
     = (Inr ([], [[\<lparr>rr_retriever = ''bm25'', rr_query = ''q'', rr_contexts = [ex_ctx],
                    rr_summarized = Some [ex_ctx\<lparr>ctx_text := None\<rparr>]\<rparr>]]),
        [Search ''bm25'' [''q''] 10 False (Inr [ex_group]),
         Chat (summary_prompts ex_sum_self [ex_ctx] ''q'') (Inr [''No relevant information.''])])"
  by code_simp

text \<open>
  C9. A result group with neither \<open>indices\<close> nor \<open>urls\<close> fails the assertion of line 285.
  The failure is fatal and not retried: whenever any retriever call of a search returns
  such a group, the search ends with \<open>AssertionError\<close> and that call is the last event,
  so no collaborator is called again. The contexts recorded for a retriever in a round
  are the ones built from the first result group its call returned. When \<open>indices\<close> is
  the field present, the source of the i-th context is the i-th index and its text the
  i-th text; when \<open>urls\<close> is, the source is the i-th url; \<open>zip\<close> stops at the shorter of
  the two lists.
\<close>

theorem malformed_result_is_fatal:
  "(map_of g ''indices'' = None \<and> map_of g ''urls'' = None
     \<longrightarrow> build_contexts R q g = Inl AssertionError)
   \<and> (inner_search self col query tr = (res, tr')
     \<longrightarrow> (\<exists>evs. tr' = tr @ evs \<and> fatal_stop evs res))
   \<and> (retriever_step self col query (length H) idx R (contexts, H @ [partial]) tr
         = (Inr (contexts', history'), tr')
     \<longrightarrow> (\<exists>rec g' gs evs.
            history' = H @ [partial @ [rec]] \<and> rr_retriever rec = R \<and> tr' = tr @ evs
          \<and> Search R [rr_query rec] (retriever_top_k self) (disable_cache self) (Inr (g' # gs))
              \<in> set evs
          \<and> build_contexts R (rr_query rec) g' = Inr (rr_contexts rec)))
   \<and> (map_of g ''indices'' = Some ids \<and> map_of g ''urls'' = None
        \<and> map_of g ''texts'' = Some texts
     \<longrightarrow> (\<exists>ctxs. build_contexts R q g = Inr ctxs
          \<and> map ctx_source ctxs = take (min (length texts) (length ids)) ids
          \<and> map ctx_full_text ctxs = take (min (length texts) (length ids)) texts
          \<and> map ctx_text ctxs = map Some (take (min (length texts) (length ids)) texts)
          \<and> list_all (\<lambda>c. ctx_retriever c = R \<and> ctx_query c = q) ctxs))
   \<and> (map_of g ''indices'' = None \<and> map_of g ''urls'' = Some urls
        \<and> map_of g ''texts'' = Some texts
     \<longrightarrow> (\<exists>ctxs. build_contexts R q g = Inr ctxs
          \<and> map ctx_source ctxs = take (min (length texts) (length urls)) urls
          \<and> map ctx_full_text ctxs = take (min (length texts) (length urls)) texts
          \<and> map ctx_text ctxs = map Some (take (min (length texts) (length urls)) texts)
          \<and> list_all (\<lambda>c. ctx_retriever c = R \<and> ctx_query c = q) ctxs))"
proof -
  have a: "map_of g ''indices'' = None \<and> map_of g ''urls'' = None
     \<longrightarrow> build_contexts R q g = Inl AssertionError"
    using build_contexts_neither[of g R q] by blast
  have b: "inner_search self col query tr = (res, tr')
     \<longrightarrow> (\<exists>evs. tr' = tr @ evs \<and> fatal_stop evs res)"
    using inner_search_fatal[of self col query tr res tr'] by blast
  have c: "retriever_step self col query (length H) idx R (contexts, H @ [partial]) tr
         = (Inr (contexts', history'), tr')
     \<longrightarrow> (\<exists>rec g' gs evs.
            history' = H @ [partial @ [rec]] \<and> rr_retriever rec = R \<and> tr' = tr @ evs
          \<and> Search R [rr_query rec] (retriever_top_k self) (disable_cache self) (Inr (g' # gs))
              \<in> set evs
          \<and> build_contexts R (rr_query rec) g' = Inr (rr_contexts rec))"
    using retriever_step_builds[of self col query H idx R contexts partial tr contexts'
            history' tr'] by blast
  have d: "map_of g ''indices'' = Some ids \<and> map_of g ''urls'' = None
        \<and> map_of g ''texts'' = Some texts
     \<longrightarrow> (\<exists>ctxs. build_contexts R q g = Inr ctxs
          \<and> map ctx_source ctxs = take (min (length texts) (length ids)) ids
          \<and> map ctx_full_text ctxs = take (min (length texts) (length ids)) texts
          \<and> map ctx_text ctxs = map Some (take (min (length texts) (length ids)) texts)
          \<and> list_all (\<lambda>c. ctx_retriever c = R \<and> ctx_query c = q) ctxs)"
    using build_contexts_indices[of g ids texts R q]
      build_contexts_fields[of "map (context_of R q) (zip texts ids)" R q texts ids]
    by blast
  have e: "map_of g ''indices'' = None \<and> map_of g ''urls'' = Some urls
        \<and> map_of g ''texts'' = Some texts
     \<longrightarrow> (\<exists>ctxs. build_contexts R q g = Inr ctxs
          \<and> map ctx_source ctxs = take (min (length texts) (length urls)) urls
          \<and> map ctx_full_text ctxs = take (min (length texts) (length urls)) texts
          \<and> map ctx_text ctxs = map Some (take (min (length texts) (length urls)) texts)
          \<and> list_all (\<lambda>c. ctx_retriever c = R \<and> ctx_query c = q) ctxs)"
    using build_contexts_urls[of g urls texts R q]
      build_contexts_fields[of "map (context_of R q) (zip texts urls)" R q texts urls]
    by blast
  show ?thesis by (rule conjI[OF a conjI[OF b conjI[OF c conjI[OF d e]]]])
qed

theorem malformed_result_is_fatal_witness:
  "build_contexts ''bm25'' ''q'' ex_bad_group = Inl AssertionError
   \<and> inner_search ex_self ex_bad_col ''q'' []
       = (Inl AssertionError,
          [Chat [[(''user'', ''Query: q'')]] (Inr [''no'']),
           Search ''bm25'' [''no''] 10 False (Inr [ex_bad_group])])
   \<and> malformed (Search ''bm25'' [''no''] 10 False (Inr [ex_bad_group]))
   \<and> fatal_stop [Chat [[(''user'', ''Query: q'')]] (Inr [''no'']),
                  Search ''bm25'' [''no''] 10 False (Inr [ex_bad_group])]
        (Inl AssertionError :: error + ctx list \<times> round_record list list)
   \<and> (\<exists>(rec :: round_record) g' gs evs. rr_retriever rec = ''bm25''
         \<and> Search ''bm25'' [rr_query rec] 10 False (Inr (g' # gs)) \<in> set evs
         \<and> build_contexts ''bm25'' (rr_query rec) g' = Inr (rr_contexts rec))
   \<and> (\<exists>ctxs. build_contexts ''bm25'' ''q'' ex_group = Inr ctxs
         \<and> map ctx_source ctxs = [''doc1'']
         \<and> map ctx_full_text ctxs = [''Paris is the capital of France.''])
   \<and> (\<exists>ctxs. build_contexts ''bing'' ''q''
                 [(''texts'', [''t1'', ''t2'', ''t3'']), (''urls'', [''u1'', ''u2''])] = Inr ctxs
         \<and> map ctx_source ctxs = [''u1'', ''u2'']
         \<and> map ctx_full_text ctxs = [''t1'', ''t2'']
         \<and> map ctx_text ctxs = [Some ''t1'', Some ''t2''])"
proof -
  have bad: "map_of ex_bad_group ''indices'' = None \<and> map_of ex_bad_group ''urls'' = None"
    by (simp add: ex_bad_group_def)
  have good: "map_of ex_group ''indices'' = Some [''doc1''] \<and> map_of ex_group ''urls'' = None
              \<and> map_of ex_group ''texts'' = Some [''Paris is the capital of France.'']"
    by (simp add: ex_group_def)
  let ?web = "[(''texts'', [''t1'', ''t2'', ''t3'']), (''urls'', [''u1'', ''u2''])]"
  have web: "map_of ?web ''indices'' = None \<and> map_of ?web ''urls'' = Some [''u1'', ''u2'']
             \<and> map_of ?web ''texts'' = Some [''t1'', ''t2'', ''t3'']"
    by simp
  have cfg: "retriever_top_k ex_sum_self = 10" "disable_cache ex_sum_self = False"
    by (simp_all add: ex_sum_self_def ex_self_def)
  have run: "inner_search ex_self ex_bad_col ''q'' []
       = (Inl AssertionError,
          [Chat [[(''user'', ''Query: q'')]] (Inr [''no'']),
           Search ''bm25'' [''no''] 10 False (Inr [ex_bad_group])])"
    by (rule malformed_example_run)
  have st: "retriever_step ex_sum_self ex_sum_col ''q'' (length ([] :: round_record list list))
              0 ''bm25'' ([], [] @ [[]]) []
     = (Inr ([], [[\<lparr>rr_retriever = ''bm25'', rr_query = ''q'', rr_contexts = [ex_ctx],
                    rr_summarized = Some [ex_ctx\<lparr>ctx_text := None\<rparr>]\<rparr>]]),
        [Search ''bm25'' [''q''] 10 False (Inr [ex_group]),
         Chat (summary_prompts ex_sum_self [ex_ctx] ''q'') (Inr [''No relevant information.''])])"
    using summary_example_step by simp
  have one: "build_contexts ''bm25'' ''q'' ex_bad_group = Inl AssertionError"
    by (rule malformed_result_is_fatal[THEN conjunct1, THEN mp, OF bad])
  have "\<exists>evs. [Chat [[(''user'', ''Query: q'')]] (Inr [''no'']),
                Search ''bm25'' [''no''] 10 False (Inr [ex_bad_group])] = [] @ evs
          \<and> fatal_stop evs
               (Inl AssertionError :: error + ctx list \<times> round_record list list)"
    by (rule malformed_result_is_fatal[THEN conjunct2, THEN conjunct1, THEN mp, OF run])
  then have two: "fatal_stop [Chat [[(''user'', ''Query: q'')]] (Inr [''no'']),
                          Search ''bm25'' [''no''] 10 False (Inr [ex_bad_group])]
                (Inl AssertionError :: error + ctx list \<times> round_record list list)"
    by simp
  note s1 = malformed_result_is_fatal
         [THEN conjunct2, THEN conjunct2, THEN conjunct1, THEN mp, OF st, unfolded cfg]
  have step: "\<exists>(rec :: round_record) g' gs evs. rr_retriever rec = ''bm25''
         \<and> Search ''bm25'' [rr_query rec] 10 False (Inr (g' # gs)) \<in> set evs
         \<and> build_contexts ''bm25'' (rr_query rec) g' = Inr (rr_contexts rec)"
    using s1
    apply (elim exE conjE)
    apply (intro exI conjI)
      apply assumption+
    done
  note s3 = malformed_result_is_fatal
         [where R = "''bm25''" and q = "''q''", THEN conjunct2, THEN conjunct2, THEN conjunct2, THEN conjunct1, THEN mp, OF good]
  have three: "\<exists>ctxs. build_contexts ''bm25'' ''q'' ex_group = Inr ctxs
         \<and> map ctx_source ctxs = [''doc1'']
         \<and> map ctx_full_text ctxs = [''Paris is the capital of France.'']"
    using s3 by (elim exE conjE) simp
  note s4 = malformed_result_is_fatal
         [where R = "''bing''" and q = "''q''", THEN conjunct2, THEN conjunct2, THEN conjunct2, THEN conjunct2, THEN mp, OF web]
  have four: "\<exists>ctxs. build_contexts ''bing'' ''q'' ?web = Inr ctxs
         \<and> map ctx_source ctxs = [''u1'', ''u2'']
         \<and> map ctx_full_text ctxs = [''t1'', ''t2'']
         \<and> map ctx_text ctxs = [Some ''t1'', Some ''t2'']"
    using s4 by (elim exE conjE) simp
  have m: "malformed (Search ''bm25'' [''no''] 10 False (Inr [ex_bad_group]))"
    by (simp add: ex_bad_group_def)
  show ?thesis
    by (rule conjI[OF one conjI[OF run conjI[OF m conjI[OF two conjI[OF step
          conjI[OF three four]]]]]])
qed

text \<open>
  C6, as claimed: every context whose summary matches one of the phrases
  \<open>does not provide\<close>, \<open>does not contain\<close>, \<open>no relevant information\<close> (case-insensitive)
  gets a null text. On the code the summary \<open>It does not provide the answer.\<close> contains
  the first phrase, yet the context keeps that summary as its text.
\<close>

theorem phrase_inside_summary_is_kept:
  "sublist ''does not provide'' (lower ''It does not provide the answer.'')
   \<and> apply_summaries [''It does not provide the answer.''] [ex_ctx]
       = [ex_ctx\<lparr>ctx_text := Some ''It does not provide the answer.''\<rparr>]"
  by code_simp

text \<open>
  C6, amended: with summarization enabled, the record of the retriever gets under
  \<open>summarized_contexts\<close> all summarized copies of its contexts, and the round's contexts
  get those of them whose text is not null. When the language model returns one summary
  per context, a context whose lowered summary begins with
  \<open>context does not provide\<close>, \<open>context does not contain\<close> or \<open>no relevant information\<close>
  gets a null text and is left out of the round's contexts. A context whose lowered
  summary contains none of these three phrases keeps the summary as its text and is
  included.
\<close>

theorem summarized_contexts_filtered:
  "(summary_context self
      \<and> retriever_step self col query (length H) idx R (contexts, H @ [partial]) tr
          = (Inr (contexts', history'), tr')
     \<longrightarrow> (\<exists>rec responses tr2.
            history' = H @ [partial @ [rec]] \<and> rr_retriever rec = R
          \<and> chat col tr2 (summary_prompts self (rr_contexts rec) query) = Inr responses
          \<and> rr_summarized rec = Some (apply_summaries responses (rr_contexts rec))
          \<and> contexts' = contexts @ filter (\<lambda>c. ctx_text c \<noteq> None)
                                     (apply_summaries responses (rr_contexts rec))))
   \<and> (length responses = length ctxs \<and> i < length ctxs
        \<and> begins_with_phrase (lower (responses ! i))
     \<longrightarrow> ctx_text (apply_summaries responses ctxs ! i) = None
         \<and> apply_summaries responses ctxs ! i
             \<notin> set (filter (\<lambda>c. ctx_text c \<noteq> None) (apply_summaries responses ctxs))
         \<and> length (apply_summaries responses ctxs) = length ctxs)
   \<and> (length responses = length ctxs \<and> i < length ctxs
        \<and> \<not> contains_phrase (lower (responses ! i))
     \<longrightarrow> apply_summaries responses ctxs ! i = (ctxs ! i)\<lparr>ctx_text := Some (responses ! i)\<rparr>
         \<and> apply_summaries responses ctxs ! i
             \<in> set (filter (\<lambda>c. ctx_text c \<noteq> None) (apply_summaries responses ctxs)))"
proof -
  have A: "summary_context self
      \<and> retriever_step self col query (length H) idx R (contexts, H @ [partial]) tr
          = (Inr (contexts', history'), tr')
     \<longrightarrow> (\<exists>rec responses tr2.
            history' = H @ [partial @ [rec]] \<and> rr_retriever rec = R
          \<and> chat col tr2 (summary_prompts self (rr_contexts rec) query) = Inr responses
          \<and> rr_summarized rec = Some (apply_summaries responses (rr_contexts rec))
          \<and> contexts' = contexts @ filter (\<lambda>c. ctx_text c \<noteq> None)
                                     (apply_summaries responses (rr_contexts rec)))"
    using retriever_step_summary[of self col query H idx R contexts partial tr contexts'
            history' tr'] by blast
  have B: "length responses = length ctxs \<and> i < length ctxs
        \<and> begins_with_phrase (lower (responses ! i))
     \<longrightarrow> ctx_text (apply_summaries responses ctxs ! i) = None
         \<and> apply_summaries responses ctxs ! i
             \<notin> set (filter (\<lambda>c. ctx_text c \<noteq> None) (apply_summaries responses ctxs))
         \<and> length (apply_summaries responses ctxs) = length ctxs"
  proof (rule impI)
    assume a: "length responses = length ctxs \<and> i < length ctxs
          \<and> begins_with_phrase (lower (responses ! i))"
    then have "not_relevant (responses ! i)" by (simp add: not_relevant_iff)
    with a apply_summaries_nth[of responses ctxs i]
    have n: "ctx_text (apply_summaries responses ctxs ! i) = None" by simp
    then show "ctx_text (apply_summaries responses ctxs ! i) = None
           \<and> apply_summaries responses ctxs ! i
               \<notin> set (filter (\<lambda>c. ctx_text c \<noteq> None) (apply_summaries responses ctxs))
           \<and> length (apply_summaries responses ctxs) = length ctxs"
      by (simp add: apply_summaries_length)
  qed
  have C: "length responses = length ctxs \<and> i < length ctxs
        \<and> \<not> contains_phrase (lower (responses ! i))
     \<longrightarrow> apply_summaries responses ctxs ! i = (ctxs ! i)\<lparr>ctx_text := Some (responses ! i)\<rparr>
         \<and> apply_summaries responses ctxs ! i
             \<in> set (filter (\<lambda>c. ctx_text c \<noteq> None) (apply_summaries responses ctxs))"
  proof (rule impI)
    assume a: "length responses = length ctxs \<and> i < length ctxs
          \<and> \<not> contains_phrase (lower (responses ! i))"
    then have "\<not> not_relevant (responses ! i)"
      using begins_contains[of "lower (responses ! i)"] by (auto simp: not_relevant_iff)
    with a apply_summaries_nth[of responses ctxs i]
    have e: "apply_summaries responses ctxs ! i
               = (ctxs ! i)\<lparr>ctx_text := Some (responses ! i)\<rparr>"
      by simp
    have "apply_summaries responses ctxs ! i \<in> set (apply_summaries responses ctxs)"
      using a by (simp add: apply_summaries_length)
    with e show "apply_summaries responses ctxs ! i
                   = (ctxs ! i)\<lparr>ctx_text := Some (responses ! i)\<rparr>
           \<and> apply_summaries responses ctxs ! i
               \<in> set (filter (\<lambda>c. ctx_text c \<noteq> None) (apply_summaries responses ctxs))"
      by simp
  qed
  show ?thesis by (rule conjI[OF A conjI[OF B C]])
qed

theorem summarized_contexts_filtered_witness:
  "summary_context ex_sum_self
   \<and> (\<exists>rec responses tr2.
         [[\<lparr>rr_retriever = ''bm25'', rr_query = ''q'', rr_contexts = [ex_ctx],
            rr_summarized = Some [ex_ctx\<lparr>ctx_text := None\<rparr>]\<rparr>]] = [[rec]]
       \<and> chat ex_sum_col tr2 (summary_prompts ex_sum_self (rr_contexts rec) ''q'') = Inr responses
       \<and> rr_summarized rec = Some (apply_summaries responses (rr_contexts rec))
       \<and> ([] :: ctx list)
           = filter (\<lambda>c. ctx_text c \<noteq> None) (apply_summaries responses (rr_contexts rec)))
   \<and> begins_with_phrase (lower ''No relevant information.'')
   \<and> ctx_text (apply_summaries [''No relevant information.''] [ex_ctx] ! 0) = None
   \<and> \<not> contains_phrase (lower ''Paris, since 987.'')
   \<and> apply_summaries [''Paris, since 987.''] [ex_ctx] ! 0
       = ex_ctx\<lparr>ctx_text := Some ''Paris, since 987.''\<rparr>"
proof -
  have s: "summary_context ex_sum_self"
    by (simp add: ex_sum_self_def)
  have b: "begins_with_phrase (lower ''No relevant information.'')"
    by code_simp
  have c: "\<not> contains_phrase (lower ''Paris, since 987.'')"
    by code_simp
  from summarized_contexts_filtered
         [of ex_sum_self ex_sum_col "''q''" "[]" 0 "''bm25''" "[]" "[]" "[]" "[]"
            "[[\<lparr>rr_retriever = ''bm25'', rr_query = ''q'', rr_contexts = [ex_ctx],
                rr_summarized = Some [ex_ctx\<lparr>ctx_text := None\<rparr>]\<rparr>]]"
            "[Search ''bm25'' [''q''] 10 False (Inr [ex_group]),
              Chat (summary_prompts ex_sum_self [ex_ctx] ''q'')
                (Inr [''No relevant information.''])]"]
       s summary_example_step
  have one: "\<exists>rec responses tr2.
         [[\<lparr>rr_retriever = ''bm25'', rr_query = ''q'', rr_contexts = [ex_ctx],
            rr_summarized = Some [ex_ctx\<lparr>ctx_text := None\<rparr>]\<rparr>]] = [[rec]]
       \<and> chat ex_sum_col tr2 (summary_prompts ex_sum_self (rr_contexts rec) ''q'') = Inr responses
       \<and> rr_summarized rec = Some (apply_summaries responses (rr_contexts rec))
       \<and> ([] :: ctx list)
           = filter (\<lambda>c. ctx_text c \<noteq> None) (apply_summaries responses (rr_contexts rec))"
    by auto
  from summarized_contexts_filtered
         [where responses = "[''No relevant information.'']" and ctxs = "[ex_ctx]" and i = 0] b
  have two: "ctx_text (apply_summaries [''No relevant information.''] [ex_ctx] ! 0) = None"
    by simp
  from summarized_contexts_filtered
         [where responses = "[''Paris, since 987.'']" and ctxs = "[ex_ctx]" and i = 0] c
  have three: "apply_summaries [''Paris, since 987.''] [ex_ctx] ! 0
                 = ex_ctx\<lparr>ctx_text := Some ''Paris, since 987.''\<rparr>"
    by simp
  from s one b two c three show ?thesis by blast
qed

end
